theory Spec2Isabelle
  imports Complex_Main "HOL-Library.Sublist" "HOL-Library.Monad_Syntax"
begin

section \<open>RAWR beam search of \<^verbatim>\<open>rawr.py\<close>: the embedding\<close>

text \<open>
  The functions \<^verbatim>\<open>remove_one\<close> and \<^verbatim>\<open>get_rawr\<close> of \<^verbatim>\<open>src/rawr.py\<close> are embedded as
  HOL functions. A sequence is a list of integer token ids. The classifier is an external
  collaborator: it is a parameter of every function, with its greedy prediction taken as a
  function of the sequence and its saliency scores (the values of \<^verbatim>\<open>get_onehot_grad\<close>)
  taken as one score per position of the sequence. The scores are floating point numbers in
  the program; the search only negates and compares them, so they are modelled as reals.

  The only exception that the two functions can raise themselves is Python's
  \<^verbatim>\<open>IndexError\<close>, at a list access out of range. Every function that reads a list by index
  returns an option, with \<open>None\<close> for that exception.

  \<^verbatim>\<open>max_beam_size\<close> is a count and is modelled as a natural number. \<^verbatim>\<open>argsort\<close> is modelled
  as the stable sort of the positions, Python's \<^verbatim>\<open>sorted\<close> is stable. The loops that update
  their variables in place are modelled by \<open>for_each\<close> over a record of these variables.
\<close>

type_synonym seq = "int list"

record model =
  predict :: "seq \<Rightarrow> nat"
  saliency :: "seq \<Rightarrow> nat \<Rightarrow> real"

subsection \<open>Python list access and loops\<close>

definition py_nth :: "'a list \<Rightarrow> nat \<Rightarrow> 'a option" where
  \<comment> \<open>\<^verbatim>\<open>xs[i]\<close> for \<open>i \<ge> 0\<close>\<close>
  "py_nth xs i = (if i < length xs then Some (xs ! i) else None)"

definition py_set :: "'a list \<Rightarrow> nat \<Rightarrow> 'a \<Rightarrow> 'a list option" where
  \<comment> \<open>\<^verbatim>\<open>xs[i] = v\<close> for \<open>i \<ge> 0\<close>\<close>
  "py_set xs i v = (if i < length xs then Some (xs[i := v]) else None)"

fun for_each :: "(nat \<Rightarrow> 's \<Rightarrow> 's option) \<Rightarrow> nat list \<Rightarrow> 's \<Rightarrow> 's option" where
  \<comment> \<open>\<^verbatim>\<open>for i in is: body\<close>, the body updating the loop's variables \<open>s\<close>\<close>
  "for_each body [] s = Some s"
| "for_each body (i # is) s = (case body i s of None \<Rightarrow> None | Some s' \<Rightarrow> for_each body is s')"

subsection \<open>Saliency scores\<close>

definition get_onehot_grad :: "model \<Rightarrow> seq list \<Rightarrow> real list list" where
  \<comment> \<open>one array of scores per sequence, of the sequence's length\<close>
  "get_onehot_grad m xs = map (\<lambda>x. map (saliency m x) [0..<length x]) xs"

definition argsort :: "real list \<Rightarrow> nat list" where
  \<comment> \<open>the positions of \<open>v\<close> in ascending order of their values\<close>
  "argsort v = sort_key (\<lambda>j. v ! j) [0..<length v]"

subsection \<open>\<^verbatim>\<open>remove_one\<close>\<close>

text \<open>
  The variables that the loop over the examples updates: \<^verbatim>\<open>new_xs\<close>, \<^verbatim>\<open>new_n_beams\<close>,
  \<^verbatim>\<open>new_indices\<close>, \<^verbatim>\<open>new_removed_indices\<close> and \<^verbatim>\<open>start\<close>.
\<close>

record expansion =
  new_xs :: "seq list"
  new_n_beams :: "nat list"
  new_indices :: "nat list list"
  new_removed_indices :: "nat list list"
  start :: nat

definition pool :: "real list list \<Rightarrow> nat list list \<Rightarrow> nat \<Rightarrow> nat \<Rightarrow> nat
    \<Rightarrow> (real \<times> nat \<times> nat) list option" where
  \<comment> \<open>lines 50 to 53: the candidates of the beams \<open>start..<start + nb\<close>\<close>
  "pool onehot_grad order max_beam_size st nb =
     (if st + nb \<le> length order \<and> st + nb \<le> length onehot_grad
      then Some (concat (map (\<lambda>i. map (\<lambda>j. (onehot_grad ! i ! j, (i, j)))
                                    (take max_beam_size (order ! i))) [st..<st + nb]))
      else None)"

definition select :: "nat \<Rightarrow> (real \<times> nat \<times> nat) list \<Rightarrow> (nat \<times> nat) list" where
  \<comment> \<open>lines 59 and 60: \<^verbatim>\<open>sorted\<close> is stable, its key is the negated score\<close>
  "select max_beam_size coordinates =
     take max_beam_size (map snd (sort_key (\<lambda>x. - fst x) coordinates))"

definition child :: "seq list \<Rightarrow> nat list list \<Rightarrow> nat list list \<Rightarrow> nat \<times> nat
    \<Rightarrow> (seq \<times> nat list \<times> nat list) option" where
  \<comment> \<open>lines 62 to 66, for one pair \<open>(i, j)\<close>\<close>
  "child xs indices removed_indices = (\<lambda>(i, j). do {
     x \<leftarrow> py_nth xs i;
     idx \<leftarrow> py_nth indices i;
     rmd \<leftarrow> py_nth removed_indices i;
     p \<leftarrow> py_nth idx j;
     Some (take j x @ drop (j + 1) x, take j idx @ drop (j + 1) idx, rmd @ [p]) })"

definition expand_example :: "seq list \<Rightarrow> nat list \<Rightarrow> nat list list \<Rightarrow> nat list list
    \<Rightarrow> real list list \<Rightarrow> nat list list \<Rightarrow> nat \<Rightarrow> nat \<Rightarrow> expansion \<Rightarrow> expansion option" where
  \<comment> \<open>lines 46 to 68: the body of the loop over \<^verbatim>\<open>example_idx\<close>\<close>
  "expand_example xs n_beams indices removed_indices onehot_grad order max_beam_size
       example_idx s = do {
     nb \<leftarrow> py_nth n_beams example_idx;
     if nb = 0 then Some (s\<lparr>new_n_beams := new_n_beams s @ [0]\<rparr>)
     else do {
       coordinates \<leftarrow> pool onehot_grad order max_beam_size (start s) nb;
       if length coordinates = 0
       then Some (s\<lparr>new_n_beams := new_n_beams s @ [0], start := start s + nb\<rparr>)
       else do {
         let coordinates = select max_beam_size coordinates;
         cs \<leftarrow> those (map (child xs indices removed_indices) coordinates);
         Some (s\<lparr>new_xs := new_xs s @ map fst cs,
                 new_indices := new_indices s @ map (fst \<circ> snd) cs,
                 new_removed_indices := new_removed_indices s @ map (snd \<circ> snd) cs,
                 new_n_beams := new_n_beams s @ [length coordinates],
                 start := start s + nb\<rparr>) } } }"

definition remove_one :: "model \<Rightarrow> seq list \<Rightarrow> nat list \<Rightarrow> nat list list \<Rightarrow> nat list list
    \<Rightarrow> nat \<Rightarrow> (seq list \<times> nat list \<times> nat list list \<times> nat list list) option" where
  "remove_one m xs n_beams indices removed_indices max_beam_size =
     (let n_examples = length n_beams;
          onehot_grad = get_onehot_grad m xs;
          order = map (\<lambda>x. argsort (butlast x)) onehot_grad
      in do {
        s \<leftarrow> for_each (expand_example xs n_beams indices removed_indices onehot_grad order
                         max_beam_size)
               [0..<n_examples]
               \<lparr>new_xs = [], new_n_beams = [], new_indices = [], new_removed_indices = [],
                start = 0\<rparr>;
        Some (new_xs s, new_n_beams s, new_indices s, new_removed_indices s) })"

subsection \<open>\<^verbatim>\<open>get_rawr\<close>\<close>

text \<open>The variables of the search: the flat lists of the beams and the best results.\<close>

record state =
  s_xs :: "seq list"
  s_n_beams :: "nat list"
  s_indices :: "nat list list"
  s_removed_indices :: "nat list list"
  final_xs :: "seq list list"
  final_removed :: "nat list list list"
  final_length :: "nat list"

text \<open>
  The variables that the bookkeeping of a round updates besides the best results:
  \<^verbatim>\<open>new_n_beams\<close>, \<^verbatim>\<open>start\<close>, \<^verbatim>\<open>remained_indices\<close> and \<^verbatim>\<open>cnt\<close>.
\<close>

record book =
  b_final_xs :: "seq list list"
  b_final_removed :: "nat list list list"
  b_final_length :: "nat list"
  b_new_n_beams :: "nat list"
  b_start :: nat
  remained_indices :: "nat list"
  cnt :: nat

definition visit :: "nat list \<Rightarrow> seq list \<Rightarrow> nat list \<Rightarrow> nat list list \<Rightarrow> nat \<Rightarrow> nat
    \<Rightarrow> book \<Rightarrow> book option" where
  \<comment> \<open>lines 101 to 118: the body of the loop over the beams \<open>i\<close> of an example\<close>
  "visit ys_0 xs ys removed_indices example_idx i b = do {
     y \<leftarrow> py_nth ys i;
     y0 \<leftarrow> py_nth ys_0 example_idx;
     if \<not> y = y0 then Some b
     else do {
       x \<leftarrow> py_nth xs i;
       fl \<leftarrow> py_nth (b_final_length b) example_idx;
       b \<leftarrow> (if length x < fl then do {
               fl' \<leftarrow> py_set (b_final_length b) example_idx (length x);
               r \<leftarrow> py_nth removed_indices i;
               fr' \<leftarrow> py_set (b_final_removed b) example_idx [r];
               fx' \<leftarrow> py_set (b_final_xs b) example_idx [x];
               Some (b\<lparr>b_final_length := fl', b_final_removed := fr', b_final_xs := fx'\<rparr>) }
             else if length x = fl then do {
               fx \<leftarrow> py_nth (b_final_xs b) example_idx;
               if x \<notin> set fx then do {
                 fx' \<leftarrow> py_set (b_final_xs b) example_idx (fx @ [x]);
                 fr \<leftarrow> py_nth (b_final_removed b) example_idx;
                 r \<leftarrow> py_nth removed_indices i;
                 fr' \<leftarrow> py_set (b_final_removed b) example_idx (fr @ [r]);
                 Some (b\<lparr>b_final_xs := fx', b_final_removed := fr'\<rparr>) }
               else Some b }
             else Some b);
       if length x = 1 then Some b
       else Some (b\<lparr>remained_indices := remained_indices b @ [i], cnt := cnt b + 1\<rparr>) } }"

definition scan_example :: "nat list \<Rightarrow> seq list \<Rightarrow> nat list \<Rightarrow> nat list \<Rightarrow> nat list list
    \<Rightarrow> nat \<Rightarrow> book \<Rightarrow> book option" where
  \<comment> \<open>lines 95 to 120: the body of the loop over \<^verbatim>\<open>example_idx\<close>\<close>
  "scan_example ys_0 xs ys n_beams removed_indices example_idx b = do {
     nb \<leftarrow> py_nth n_beams example_idx;
     if nb = 0 then Some (b\<lparr>b_new_n_beams := b_new_n_beams b @ [0]\<rparr>)
     else do {
       b \<leftarrow> for_each (visit ys_0 xs ys removed_indices example_idx)
              [b_start b..<b_start b + nb] (b\<lparr>cnt := 0\<rparr>);
       Some (b\<lparr>b_new_n_beams := b_new_n_beams b @ [cnt b], b_start := b_start b + nb\<rparr>) } }"

definition round :: "model \<Rightarrow> nat \<Rightarrow> nat \<Rightarrow> nat list \<Rightarrow> state \<Rightarrow> (state \<times> bool) option" where
  \<comment> \<open>lines 86 to 128: one pass through the body of \<^verbatim>\<open>while True\<close>; the flag says
      whether the pass ended in \<^verbatim>\<open>break\<close>\<close>
  "round m max_beam_size n_examples ys_0 st = do {
     (xs1, n_beams1, indices1, removed_indices1) \<leftarrow>
        remove_one m (s_xs st) (s_n_beams st) (s_indices st) (s_removed_indices st)
          max_beam_size;
     let ys = map (predict m) xs1;
     b \<leftarrow> for_each (scan_example ys_0 xs1 ys n_beams1 removed_indices1) [0..<n_examples]
            \<lparr>b_final_xs = final_xs st, b_final_removed = final_removed st,
             b_final_length = final_length st, b_new_n_beams = [], b_start = 0,
             remained_indices = [], cnt = 0\<rparr>;
     let st1 = \<lparr>s_xs = xs1, s_n_beams = n_beams1, s_indices = indices1,
                s_removed_indices = removed_indices1, final_xs = b_final_xs b,
                final_removed = b_final_removed b, final_length = b_final_length b\<rparr>;
     if length (remained_indices b) = 0 then Some (st1, True)
     else do {
       xs2 \<leftarrow> those (map (py_nth xs1) (remained_indices b));
       indices2 \<leftarrow> those (map (py_nth indices1) (remained_indices b));
       removed_indices2 \<leftarrow> those (map (py_nth removed_indices1) (remained_indices b));
       Some (st1\<lparr>s_xs := xs2, s_indices := indices2, s_removed_indices := removed_indices2,
                 s_n_beams := b_new_n_beams b\<rparr>, False) } }"

definition init :: "seq list \<Rightarrow> state" where
  \<comment> \<open>lines 74 to 80\<close>
  "init xs0 =
     \<lparr>s_xs = xs0, s_n_beams = map (\<lambda>_. 1) xs0, s_indices = map (\<lambda>x. [0..<length x]) xs0,
      s_removed_indices = map (\<lambda>_. []) xs0, final_xs = map (\<lambda>x. [x]) xs0,
      final_removed = map (\<lambda>_. [[]]) xs0, final_length = map length xs0\<rparr>"

text \<open>The length of the longest sequence of a list, 0 for the empty list.\<close>

definition longest :: "seq list \<Rightarrow> nat" where
  "longest xs = Max (insert 0 (set (map length xs)))"

text \<open>
  The loop \<^verbatim>\<open>while True\<close> of lines 85 to 128. It leaves by \<^verbatim>\<open>break\<close> with the best results, or
  by an exception of a round.
\<close>

function get_rawr_loop :: "model \<Rightarrow> nat \<Rightarrow> nat \<Rightarrow> nat list \<Rightarrow> state
    \<Rightarrow> (seq list list \<times> nat list list list) option" where
  "get_rawr_loop m max_beam_size n_examples ys_0 st =
     (case round m max_beam_size n_examples ys_0 st of
        None \<Rightarrow> None
      | Some (st', stop) \<Rightarrow>
          if stop then Some (final_xs st', final_removed st')
          else get_rawr_loop m max_beam_size n_examples ys_0 st')"
  by pat_completeness auto

text \<open>
  The number of passes through the body of that loop, counted along the same recursion; a
  pass that raises is counted.
\<close>

function rawr_rounds :: "model \<Rightarrow> nat \<Rightarrow> nat \<Rightarrow> nat list \<Rightarrow> state \<Rightarrow> nat" where
  "rawr_rounds m max_beam_size n_examples ys_0 st =
     (case round m max_beam_size n_examples ys_0 st of
        None \<Rightarrow> 1
      | Some (st', stop) \<Rightarrow>
          if stop then 1 else 1 + rawr_rounds m max_beam_size n_examples ys_0 st')"
  by pat_completeness auto

text \<open>\<^verbatim>\<open>get_rawr\<close>, lines 72 to 129.\<close>

definition get_rawr :: "model \<Rightarrow> seq list \<Rightarrow> nat \<Rightarrow> (seq list list \<times> nat list list list) option"
  where
  "get_rawr m xs max_beam_size =
     (let n_examples = length xs; ys_0 = map (predict m) xs
      in get_rawr_loop m max_beam_size n_examples ys_0 (init xs))"

definition get_rawr_rounds :: "model \<Rightarrow> seq list \<Rightarrow> nat \<Rightarrow> nat" where
  "get_rawr_rounds m xs max_beam_size =
     rawr_rounds m max_beam_size (length xs) (map (predict m) xs) (init xs)"

text \<open>
  The states of the variables at the head of the loop, in the run of \<^verbatim>\<open>get_rawr\<close> on the batch
  \<open>xs0\<close>: the state after the initialisation, and the state after each round that did not
  end the loop.
\<close>

inductive reach :: "model \<Rightarrow> nat \<Rightarrow> seq list \<Rightarrow> state \<Rightarrow> bool" for m k xs0 where
  reach_init: "reach m k xs0 (init xs0)"
| reach_round: "reach m k xs0 st \<Longrightarrow>
     round m k (length xs0) (map (predict m) xs0) st = Some (st', False) \<Longrightarrow> reach m k xs0 st'"

subsection \<open>The slices of the flat lists\<close>

text \<open>
  The beams of all examples are kept in flat lists; \<^verbatim>\<open>n_beams\<close> gives the number of beams of
  each example, and the beams of example \<open>e\<close> are the positions from \<open>slice_start n_beams e\<close>
  on, which is the value of the variable \<^verbatim>\<open>start\<close> when the loops reach \<open>e\<close>.
\<close>

definition slice_start :: "nat list \<Rightarrow> nat \<Rightarrow> nat" where
  "slice_start nbs e = sum_list (take e nbs)"

definition in_slice :: "nat list \<Rightarrow> nat \<Rightarrow> nat \<Rightarrow> bool" where
  "in_slice nbs e i \<longleftrightarrow> slice_start nbs e \<le> i \<and> i < slice_start nbs e + nbs ! e"

text \<open>
  The positions that a beam \<open>x\<close> contributes to the pool of its example, the slice
  \<^verbatim>\<open>order[i][:max_beam_size]\<close> of line 52, and the pool of example \<open>e\<close>, the list
  \<^verbatim>\<open>coordinates\<close> of lines 50 to 53, both written with the scores of the classifier.
\<close>

definition candidates :: "model \<Rightarrow> nat \<Rightarrow> seq \<Rightarrow> nat list" where
  "candidates m max_beam_size x =
     take max_beam_size (argsort (butlast (map (saliency m x) [0..<length x])))"

definition example_pool :: "model \<Rightarrow> nat \<Rightarrow> seq list \<Rightarrow> nat list \<Rightarrow> nat
    \<Rightarrow> (real \<times> nat \<times> nat) list" where
  "example_pool m max_beam_size xs nbs e =
     concat (map (\<lambda>i. map (\<lambda>j. (saliency m (xs ! i) j, (i, j))) (candidates m max_beam_size (xs ! i)))
               [slice_start nbs e..<slice_start nbs e + nbs ! e])"

subsection \<open>The selection of the specification\<close>

text \<open>
  The selection among the pooled candidates as the specification words it: ascending
  saliency, the first \<open>max_beam_size\<close>. It is compared with \<open>select\<close>, the selection of the
  source.
\<close>

definition select_lowest :: "nat \<Rightarrow> (real \<times> nat \<times> nat) list \<Rightarrow> (nat \<times> nat) list" where
  "select_lowest max_beam_size coordinates =
     take max_beam_size (map snd (sort_key fst coordinates))"

subsection \<open>Predicates of the proofs\<close>

text \<open>
  What \<open>remove_one\<close> returns for example \<open>e\<close>: the slice of \<open>e\<close> in the returned lists holds
  the children of the selected candidates of \<open>e\<close>, in the order of the selection.
\<close>

definition expanded :: "model \<Rightarrow> nat \<Rightarrow> seq list \<Rightarrow> nat list \<Rightarrow> nat list list \<Rightarrow> nat list list
    \<Rightarrow> seq list \<Rightarrow> nat list \<Rightarrow> nat list list \<Rightarrow> nat list list \<Rightarrow> nat \<Rightarrow> bool" where
  "expanded m k xs nbs ind rmd nx nn ni nr e \<longleftrightarrow>
     (nbs ! e \<noteq> 0 \<longrightarrow> slice_start nbs e + nbs ! e \<le> length xs) \<and>
     nn ! e = length (select k (example_pool m k xs nbs e)) \<and>
     (\<forall>t<nn ! e. child xs ind rmd (select k (example_pool m k xs nbs e) ! t)
        = Some (nx ! (slice_start nn e + t), ni ! (slice_start nn e + t),
                nr ! (slice_start nn e + t)))"

text \<open>
  The positions of the original \<open>x0\<close> that the removed positions \<open>r\<close> leave, and a sequence
  \<open>x\<close> as the reduction of \<open>x0\<close> by \<open>r\<close>: the tokens of \<open>x0\<close> at the positions left, where \<open>r\<close>
  never holds the last position and holds no position twice. A beam is well-formed when its
  sequence is such a reduction and its index list holds the positions left.
\<close>

definition kept :: "'a list \<Rightarrow> nat list \<Rightarrow> nat list" where
  "kept x0 r = filter (\<lambda>p. p \<notin> set r) [0..<length x0]"

definition reduction :: "seq \<Rightarrow> seq \<Rightarrow> nat list \<Rightarrow> bool" where
  "reduction x0 x r \<longleftrightarrow>
     distinct r \<and> set r \<subseteq> {0..<length x0 - 1} \<and> x = map ((!) x0) (kept x0 r)"

definition beam_ok :: "seq \<Rightarrow> seq \<Rightarrow> nat list \<Rightarrow> nat list \<Rightarrow> bool" where
  "beam_ok x0 x idx r \<longleftrightarrow> idx = kept x0 r \<and> reduction x0 x r"

text \<open>
  The flat lists of beams are well-formed for the batch \<open>xs0\<close>: one count per example, one
  entry per beam in every list, and a well-formed beam of example \<open>e\<close> at every position of
  the slice of \<open>e\<close>.
\<close>

definition beams_ok :: "seq list \<Rightarrow> seq list \<Rightarrow> nat list \<Rightarrow> nat list list \<Rightarrow> nat list list \<Rightarrow> bool"
  where
  "beams_ok xs0 xs nbs ind rmd \<longleftrightarrow>
     length nbs = length xs0 \<and> length xs = sum_list nbs \<and> length ind = sum_list nbs
     \<and> length rmd = sum_list nbs
     \<and> (\<forall>e<length xs0. \<forall>i. in_slice nbs e i \<longrightarrow> beam_ok (xs0 ! e) (xs ! i) (ind ! i) (rmd ! i))"

text \<open>
  Lines 105 to 112 as a function of the best results of one example (sequences, removed
  lists, best length), and the best results of example \<open>e\<close> in the variables of the
  bookkeeping.
\<close>

definition record_into :: "seq \<Rightarrow> nat list \<Rightarrow> seq list \<times> nat list list \<times> nat
    \<Rightarrow> seq list \<times> nat list list \<times> nat" where
  "record_into x r = (\<lambda>(fx, fr, fl).
     if length x < fl then ([x], [r], length x)
     else if length x = fl \<and> x \<notin> set fx then (fx @ [x], fr @ [r], fl)
     else (fx, fr, fl))"

definition best_of :: "book \<Rightarrow> nat \<Rightarrow> seq list \<times> nat list list \<times> nat" where
  "best_of b e = (b_final_xs b ! e, b_final_removed b ! e, b_final_length b ! e)"

text \<open>
  The candidates of example \<open>e\<close> that keep its original prediction, and those of them that
  are longer than one token.
\<close>

definition matching :: "model \<Rightarrow> nat list \<Rightarrow> seq list \<Rightarrow> nat list \<Rightarrow> nat \<Rightarrow> nat list" where
  "matching m ys_0 xs nn e =
     filter (\<lambda>i. predict m (xs ! i) = ys_0 ! e) [slice_start nn e..<slice_start nn e + nn ! e]"

definition survivors :: "model \<Rightarrow> nat list \<Rightarrow> seq list \<Rightarrow> nat list \<Rightarrow> nat \<Rightarrow> nat list" where
  "survivors m ys_0 xs nn e = filter (\<lambda>i. length (xs ! i) \<noteq> 1) (matching m ys_0 xs nn e)"

text \<open>The variables of the bookkeeping when it starts, lines 91 to 93.\<close>

definition book0 :: "state \<Rightarrow> book" where
  "book0 st = \<lparr>b_final_xs = final_xs st, b_final_removed = final_removed st,
             b_final_length = final_length st, b_new_n_beams = [], b_start = 0,
             remained_indices = [], cnt = 0\<rparr>"

text \<open>
  The best results of an example are well-formed: at least one, one removed list per
  sequence, no sequence twice, every sequence a reduction of the original by its removed
  list, of the best length and with the prediction of the original.
\<close>

definition fin_ok :: "model \<Rightarrow> seq \<Rightarrow> seq list \<times> nat list list \<times> nat \<Rightarrow> bool" where
  "fin_ok m x0 = (\<lambda>(fx, fr, fl). fx \<noteq> [] \<and> length fr = length fx \<and> distinct fx
     \<and> (\<forall>t<length fx. reduction x0 (fx ! t) (fr ! t) \<and> length (fx ! t) = fl
            \<and> predict m (fx ! t) = predict m x0))"

definition finals_ok :: "model \<Rightarrow> seq list \<Rightarrow> seq list list \<Rightarrow> nat list list list \<Rightarrow> nat list
    \<Rightarrow> bool" where
  "finals_ok m xs0 fx fr fl \<longleftrightarrow> length fx = length xs0 \<and> length fr = length xs0
     \<and> length fl = length xs0 \<and> (\<forall>e<length xs0. fin_ok m (xs0 ! e) (fx ! e, fr ! e, fl ! e))"

text \<open>
  The invariant of the loop: \<open>post\<close> holds after every round, \<open>inv\<close> at the head of the loop,
  where every beam also has the prediction of its example's original.
\<close>

definition live_ok :: "model \<Rightarrow> seq list \<Rightarrow> seq list \<Rightarrow> nat list \<Rightarrow> bool" where
  "live_ok m xs0 xs nbs \<longleftrightarrow>
     (\<forall>e<length xs0. \<forall>i. in_slice nbs e i \<longrightarrow> predict m (xs ! i) = predict m (xs0 ! e))"

definition post :: "model \<Rightarrow> seq list \<Rightarrow> state \<Rightarrow> bool" where
  "post m xs0 st \<longleftrightarrow>
     beams_ok xs0 (s_xs st) (s_n_beams st) (s_indices st) (s_removed_indices st)
     \<and> finals_ok m xs0 (final_xs st) (final_removed st) (final_length st)"

definition inv :: "model \<Rightarrow> seq list \<Rightarrow> state \<Rightarrow> bool" where
  "inv m xs0 st \<longleftrightarrow> post m xs0 st \<and> live_ok m xs0 (s_xs st) (s_n_beams st)"

subsection \<open>A classifier for the examples\<close>

text \<open>
  The class is 1 when the token 17 occurs in the sequence and 0 otherwise; the score of a
  position is its token id.
\<close>

definition toy_model :: model where
  "toy_model = \<lparr>predict = (\<lambda>x. if 17 \<in> set x then 1 else 0),
                 saliency = (\<lambda>x j. real_of_int (x ! j))\<rparr>"

text \<open>
  A batch of two examples, and the states of the search on it with \<open>max_beam_size = 2\<close>
  after the first and after the second round.
\<close>

definition two_examples :: "seq list" where
  "two_examples = [[4, 17, 9, 2], [2]]"

definition after_round_1 :: state where
  "after_round_1 =
     \<lparr>s_xs = [[4, 17, 2], [17, 9, 2]], s_n_beams = [2, 0],
      s_indices = [[0, 1, 3], [1, 2, 3]], s_removed_indices = [[2], [0]],
      final_xs = [[[4, 17, 2], [17, 9, 2]], [[2]]],
      final_removed = [[[2], [0]], [[]]], final_length = [3, 1]\<rparr>"

definition after_round_2 :: state where
  "after_round_2 =
     \<lparr>s_xs = [[4, 2], [9, 2]], s_n_beams = [2, 0],
      s_indices = [[0, 3], [2, 3]], s_removed_indices = [[2, 1], [0, 1]],
      final_xs = [[[4, 17, 2], [17, 9, 2]], [[2]]],
      final_removed = [[[2], [0]], [[]]], final_length = [3, 1]\<rparr>"

section \<open>Lists, loops and slices\<close>

lemma py_nth_eq_Some [simp]: "py_nth xs i = Some v \<longleftrightarrow> i < length xs \<and> xs ! i = v"
  by (auto simp: py_nth_def)

lemma py_nth_eq_None [simp]: "py_nth xs i = None \<longleftrightarrow> length xs \<le> i"
  by (auto simp: py_nth_def)

lemma py_nth_in [simp]: "i < length xs \<Longrightarrow> py_nth xs i = Some (xs ! i)"
  by (simp add: py_nth_def)

lemma py_set_eq_Some [simp]: "py_set xs i v = Some ys \<longleftrightarrow> i < length xs \<and> ys = xs[i := v]"
  by (auto simp: py_set_def)

lemma py_set_in [simp]: "i < length xs \<Longrightarrow> py_set xs i v = Some (xs[i := v])"
  by (simp add: py_set_def)

lemma those_eq_Some: "those ys = Some zs \<longleftrightarrow> ys = map Some zs"
  by (induction ys arbitrary: zs) (auto split: option.splits)

lemma those_map_eq_Some:
  "those (map f xs) = Some zs \<longleftrightarrow> length zs = length xs \<and> (\<forall>k<length xs. f (xs ! k) = Some (zs ! k))"
  by (auto simp: those_eq_Some list_eq_iff_nth_eq)

lemma those_map_defined:
  assumes "\<And>x. x \<in> set xs \<Longrightarrow> \<exists>y. f x = Some y"
  shows "\<exists>zs. those (map f xs) = Some zs"
  using assms by (induction xs) fastforce+

lemma for_each_append:
  "for_each f (xs @ ys) s = (case for_each f xs s of None \<Rightarrow> None | Some s' \<Rightarrow> for_each f ys s')"
  by (induction xs arbitrary: s) (auto split: option.splits)

lemma for_each_upt_partial:
  assumes run: "for_each f [a..<b] s = Some s'" and le: "a \<le> b" and init: "I a s"
    and step: "\<And>i t t'. a \<le> i \<Longrightarrow> i < b \<Longrightarrow> I i t \<Longrightarrow> f i t = Some t' \<Longrightarrow> I (Suc i) t'"
  shows "I b s'"
  using run le step
proof (induction b arbitrary: s')
  case 0
  then show ?case using init by simp
next
  case (Suc b)
  show ?case
  proof (cases "a = Suc b")
    case True
    then show ?thesis using Suc.prems(1) init by simp
  next
    case False
    then have ab: "a \<le> b" using Suc.prems(2) by simp
    then obtain t where t: "for_each f [a..<b] s = Some t" and last: "f b t = Some s'"
      using Suc.prems(1) by (auto simp: for_each_append split: option.splits)
    have "I b t"
      by (rule Suc.IH [OF t ab]) (use Suc.prems(3) in auto)
    then show ?thesis using Suc.prems(3) [of b t s'] ab last by simp
  qed
qed

lemma for_each_upt_total:
  assumes le: "a \<le> b" and init: "I a s"
    and step: "\<And>i t. a \<le> i \<Longrightarrow> i < b \<Longrightarrow> I i t \<Longrightarrow> \<exists>t'. f i t = Some t' \<and> I (Suc i) t'"
  shows "\<exists>s'. for_each f [a..<b] s = Some s' \<and> I b s'"
  using le step
proof (induction b)
  case 0
  then show ?case using init by simp
next
  case (Suc b)
  show ?case
  proof (cases "a = Suc b")
    case True
    then show ?thesis using init by simp
  next
    case False
    then have ab: "a \<le> b" using Suc.prems(1) by simp
    have "\<exists>t. for_each f [a..<b] s = Some t \<and> I b t"
      by (rule Suc.IH [OF ab]) (use Suc.prems(2) in auto)
    then obtain t where t: "for_each f [a..<b] s = Some t" "I b t" by blast
    with Suc.prems(2) [of b t] ab obtain t' where "f b t = Some t'" "I (Suc b) t'" by auto
    with t ab show ?thesis by (simp add: for_each_append)
  qed
qed

lemma slice_start_0 [simp]: "slice_start nbs 0 = 0"
  by (simp add: slice_start_def)

lemma slice_start_Suc: "e < length nbs \<Longrightarrow> slice_start nbs (Suc e) = slice_start nbs e + nbs ! e"
  by (simp add: slice_start_def take_Suc_conv_app_nth)

lemma slice_start_append: "e \<le> length nbs \<Longrightarrow> slice_start (nbs @ ys) e = slice_start nbs e"
  by (simp add: slice_start_def)

lemma slice_start_length [simp]: "slice_start nbs (length nbs) = sum_list nbs"
  by (simp add: slice_start_def)

lemma slice_start_mono: "e \<le> e' \<Longrightarrow> slice_start nbs e \<le> slice_start nbs e'"
proof (induction e' )
  case 0 then show ?case by simp
next
  case (Suc e')
  show ?case
  proof (cases "e = Suc e'")
    case True then show ?thesis by simp
  next
    case False
    then have "slice_start nbs e \<le> slice_start nbs e'" using Suc by simp
    moreover have "slice_start nbs e' \<le> slice_start nbs (Suc e')"
      by (cases "e' < length nbs") (simp_all add: slice_start_def take_Suc_conv_app_nth)
    ultimately show ?thesis by simp
  qed
qed

lemma slice_start_le_sum: "slice_start nbs e \<le> sum_list nbs"
  by (metis slice_start_def append_take_drop_id le_add1 sum_list_append)

lemma slice_end_le_sum: "e < length nbs \<Longrightarrow> slice_start nbs e + nbs ! e \<le> sum_list nbs"
  by (metis slice_start_Suc slice_start_le_sum)

section \<open>\<^verbatim>\<open>remove_one\<close>\<close>

subsection \<open>The pool and the selection\<close>

lemma set_argsort [simp]: "set (argsort v) = {0..<length v}"
  by (simp add: argsort_def)

lemma candidates_bound: "j \<in> set (candidates m k x) \<Longrightarrow> j < length x - 1"
  by (auto simp: candidates_def dest!: in_set_takeD)

lemma length_get_onehot_grad [simp]: "length (get_onehot_grad m xs) = length xs"
  by (simp add: get_onehot_grad_def)

lemma take_order_nth:
  "i < length xs \<Longrightarrow>
   take k (map (\<lambda>x. argsort (butlast x)) (get_onehot_grad m xs) ! i) = candidates m k (xs ! i)"
  by (simp add: get_onehot_grad_def candidates_def)

lemma onehot_grad_nth:
  "i < length xs \<Longrightarrow> j < length (xs ! i) \<Longrightarrow> get_onehot_grad m xs ! i ! j = saliency m (xs ! i) j"
  by (simp add: get_onehot_grad_def)

lemma pool_eq_Some:
  "pool (get_onehot_grad m xs) (map (\<lambda>x. argsort (butlast x)) (get_onehot_grad m xs)) k
        (slice_start nbs e) (nbs ! e) = Some P
   \<longleftrightarrow> slice_start nbs e + nbs ! e \<le> length xs \<and> P = example_pool m k xs nbs e"
proof (cases "slice_start nbs e + nbs ! e \<le> length xs")
  case False
  then show ?thesis by (simp add: pool_def)
next
  case True
  have "map (\<lambda>j. (get_onehot_grad m xs ! i ! j, i, j))
          (take k (map (\<lambda>x. argsort (butlast x)) (get_onehot_grad m xs) ! i))
        = map (\<lambda>j. (saliency m (xs ! i) j, i, j)) (candidates m k (xs ! i))"
    if "i \<in> set [slice_start nbs e..<slice_start nbs e + nbs ! e]" for i
  proof -
    from that True have i: "i < length xs" by simp
    show ?thesis
      unfolding take_order_nth [OF i]
      by (rule map_cong [OF refl]) (use i in \<open>auto dest!: candidates_bound simp: onehot_grad_nth\<close>)
  qed
  then have eq: "map (\<lambda>i. map (\<lambda>j. (get_onehot_grad m xs ! i ! j, i, j))
          (take k (map (\<lambda>x. argsort (butlast x)) (get_onehot_grad m xs) ! i)))
          [slice_start nbs e..<slice_start nbs e + nbs ! e]
     = map (\<lambda>i. map (\<lambda>j. (saliency m (xs ! i) j, i, j)) (candidates m k (xs ! i)))
          [slice_start nbs e..<slice_start nbs e + nbs ! e]"
    by (intro map_cong [OF refl])
  from True show ?thesis unfolding pool_def example_pool_def eq by auto
qed

lemma example_pool_empty: "nbs ! e = 0 \<Longrightarrow> example_pool m k xs nbs e = []"
  by (simp add: example_pool_def)

lemma select_Nil [simp]: "select k [] = []"
  by (simp add: select_def)

lemma set_select: "set (select k P) \<subseteq> snd ` set P"
  by (auto simp: select_def dest!: in_set_takeD)

lemma length_select_le: "length (select k P) \<le> k"
  by (simp add: select_def)

lemma example_pool_mem:
  "(v, i, j) \<in> set (example_pool m k xs nbs e)
   \<longleftrightarrow> in_slice nbs e i \<and> j \<in> set (candidates m k (xs ! i)) \<and> v = saliency m (xs ! i) j"
  by (auto simp: example_pool_def in_slice_def)

lemma select_example_pool_mem:
  assumes "c \<in> set (select k (example_pool m k xs nbs e))"
  shows "in_slice nbs e (fst c) \<and> snd c \<in> set (candidates m k (xs ! fst c))"
proof -
  from assms set_select obtain v where "(v, c) \<in> set (example_pool m k xs nbs e)"
    by fastforce
  then show ?thesis by (cases c) (simp add: example_pool_mem)
qed

subsection \<open>The loop over the examples\<close>

text \<open>
  One pass through the body of the loop, in one statement for its three branches: the pass
  appends the children of the selected candidates of example \<open>e\<close>, none when the example has
  no beam or no candidate.
\<close>

lemma expand_example_step:
  assumes run: "expand_example xs nbs ind rmd (get_onehot_grad m xs)
                  (map (\<lambda>x. argsort (butlast x)) (get_onehot_grad m xs)) k e s = Some s'"
    and st: "start s = slice_start nbs e"
  shows "\<exists>cs. e < length nbs \<and> (nbs ! e \<noteq> 0 \<longrightarrow> slice_start nbs e + nbs ! e \<le> length xs)
           \<and> those (map (child xs ind rmd) (select k (example_pool m k xs nbs e))) = Some cs
           \<and> new_xs s' = new_xs s @ map fst cs
           \<and> new_indices s' = new_indices s @ map (fst \<circ> snd) cs
           \<and> new_removed_indices s' = new_removed_indices s @ map (snd \<circ> snd) cs
           \<and> new_n_beams s' = new_n_beams s @ [length cs]
           \<and> start s' = slice_start nbs (Suc e)"
proof -
  from run have e: "e < length nbs"
    by (auto simp: expand_example_def split: bind_splits)
  show ?thesis
  proof (cases "nbs ! e = 0")
    case True
    with run e st show ?thesis
      by (auto simp: expand_example_def example_pool_empty slice_start_Suc)
  next
    case False
    with run e st have fit: "slice_start nbs e + nbs ! e \<le> length xs"
      by (auto simp: expand_example_def pool_eq_Some split: bind_splits)
    show ?thesis
    proof (cases "example_pool m k xs nbs e = []")
      case True
      with run e st False fit show ?thesis
        by (auto simp: expand_example_def pool_eq_Some [THEN iffD2] slice_start_Suc
            split: bind_splits)
    next
      case nonempty: False
      with run e st False fit show ?thesis
        by (auto simp: expand_example_def pool_eq_Some slice_start_Suc those_map_eq_Some
            Let_def split: bind_splits)
    qed
  qed
qed

lemma expanded_append:
  assumes "expanded m k xs nbs ind rmd nx nn ni nr e" "e < length nn"
    "length nx = sum_list nn" "length ni = sum_list nn" "length nr = sum_list nn"
  shows "expanded m k xs nbs ind rmd (nx @ ax) (nn @ an) (ni @ ai) (nr @ ar) e"
proof -
  have "slice_start nn e + t < sum_list nn" if "t < nn ! e" for t
    using slice_end_le_sum [OF assms(2)] that by simp
  then show ?thesis
    using assms by (simp add: expanded_def nth_append slice_start_append)
qed

lemma expanded_last:
  assumes cs: "those (map (child xs ind rmd) (select k (example_pool m k xs nbs e))) = Some cs"
    and fit: "nbs ! e \<noteq> 0 \<longrightarrow> slice_start nbs e + nbs ! e \<le> length xs"
    and len: "length nn = e" "length nx = sum_list nn" "length ni = sum_list nn"
      "length nr = sum_list nn"
  shows "expanded m k xs nbs ind rmd (nx @ map fst cs) (nn @ [length cs])
           (ni @ map (fst \<circ> snd) cs) (nr @ map (snd \<circ> snd) cs) e"
proof -
  from cs have l: "length cs = length (select k (example_pool m k xs nbs e))"
    and c: "\<And>t. t < length cs \<Longrightarrow>
             child xs ind rmd (select k (example_pool m k xs nbs e) ! t) = Some (cs ! t)"
    by (simp_all add: those_map_eq_Some)
  have s: "slice_start (nn @ [length cs]) e = sum_list nn"
    using len(1) by (auto simp: slice_start_append)
  show ?thesis
    unfolding expanded_def s using fit l c len by (simp add: nth_append)
qed

lemma remove_one_spec:
  assumes "remove_one m xs nbs ind rmd k = Some (nx, nn, ni, nr)"
  shows "length nn = length nbs \<and> length nx = sum_list nn \<and> length ni = sum_list nn
         \<and> length nr = sum_list nn
         \<and> (\<forall>e<length nbs. expanded m k xs nbs ind rmd nx nn ni nr e)"
proof -
  let ?f = "expand_example xs nbs ind rmd (get_onehot_grad m xs)
              (map (\<lambda>x. argsort (butlast x)) (get_onehot_grad m xs)) k"
  let ?I = "\<lambda>e s. start s = slice_start nbs e \<and> length (new_n_beams s) = e
      \<and> length (new_xs s) = sum_list (new_n_beams s)
      \<and> length (new_indices s) = sum_list (new_n_beams s)
      \<and> length (new_removed_indices s) = sum_list (new_n_beams s)
      \<and> (\<forall>e'<e. expanded m k xs nbs ind rmd (new_xs s) (new_n_beams s) (new_indices s)
                   (new_removed_indices s) e')"
  from assms obtain s where run: "for_each ?f [0..<length nbs]
       \<lparr>new_xs = [], new_n_beams = [], new_indices = [], new_removed_indices = [], start = 0\<rparr>
       = Some s"
    and out: "nx = new_xs s" "nn = new_n_beams s" "ni = new_indices s"
      "nr = new_removed_indices s"
    by (auto simp: remove_one_def Let_def split: bind_splits)
  have "?I (length nbs) s"
  proof (rule for_each_upt_partial [where I = ?I, OF run])
    show "?I 0 \<lparr>new_xs = [], new_n_beams = [], new_indices = [], new_removed_indices = [],
                 start = 0\<rparr>"
      by simp
  next
    fix e t t'
    assume e: "e < length nbs" and I: "?I e t" and step: "?f e t = Some t'"
    from expand_example_step [OF step] I obtain cs where
      fit: "nbs ! e \<noteq> 0 \<longrightarrow> slice_start nbs e + nbs ! e \<le> length xs"
      and cs: "those (map (child xs ind rmd) (select k (example_pool m k xs nbs e))) = Some cs"
      and t': "new_xs t' = new_xs t @ map fst cs"
        "new_indices t' = new_indices t @ map (fst \<circ> snd) cs"
        "new_removed_indices t' = new_removed_indices t @ map (snd \<circ> snd) cs"
        "new_n_beams t' = new_n_beams t @ [length cs]"
        "start t' = slice_start nbs (Suc e)"
      by blast
    have "expanded m k xs nbs ind rmd (new_xs t') (new_n_beams t') (new_indices t')
            (new_removed_indices t') e'" if "e' < Suc e" for e'
    proof (cases "e' = e")
      case True
      show ?thesis unfolding t' True
        by (rule expanded_last [OF cs fit]) (use I in auto)
    next
      case False
      with that have "e' < e" by simp
      then show ?thesis unfolding t'
        by (intro expanded_append) (use I in auto)
    qed
    with I t' show "?I (Suc e) t'" by simp
  qed simp
  with out show ?thesis by simp
qed

subsection \<open>Beams as reductions of the original\<close>

text \<open>
  A beam of an example is the original sequence without the positions of its
  \<^verbatim>\<open>removed_indices\<close>, and its \<^verbatim>\<open>indices\<close> are the positions that remain, in ascending
  order. Removing a position other than the last one keeps this.
\<close>

lemma child_eq_Some:
  "child xs ind rmd (i, j) = Some (x', idx', r') \<longleftrightarrow>
     i < length xs \<and> i < length ind \<and> i < length rmd \<and> j < length (ind ! i)
     \<and> x' = take j (xs ! i) @ drop (Suc j) (xs ! i)
     \<and> idx' = take j (ind ! i) @ drop (Suc j) (ind ! i)
     \<and> r' = rmd ! i @ [ind ! i ! j]"
  by (auto simp: child_def split: bind_splits)

lemma filter_neq_nth:
  "distinct xs \<Longrightarrow> j < length xs \<Longrightarrow>
   filter (\<lambda>q. q \<noteq> xs ! j) xs = take j xs @ drop (Suc j) xs"
proof (induction xs arbitrary: j)
  case Nil
  then show ?case by simp
next
  case (Cons a xs)
  show ?case
  proof (cases j)
    case 0
    with Cons.prems show ?thesis by (auto simp: filter_id_conv)
  next
    case (Suc j')
    with Cons.prems have "a \<noteq> xs ! j'" by auto
    with Cons Suc show ?thesis by simp
  qed
qed

lemma kept_sorted: "sorted_wrt (<) (kept x0 r)"
  by (simp add: kept_def sorted_wrt_filter)

lemma kept_distinct: "distinct (kept x0 r)"
  by (simp add: kept_def)

lemma set_kept: "set (kept x0 r) = {0..<length x0} - set r"
  by (auto simp: kept_def)

lemma length_kept:
  assumes "distinct r" "set r \<subseteq> {0..<length x0}"
  shows "length (kept x0 r) + length r = length x0"
proof -
  have "length (kept x0 r) = card ({0..<length x0} - set r)"
    using distinct_card [OF kept_distinct, of x0 r] by (simp add: set_kept)
  also have "\<dots> = length x0 - length r"
    using assms by (simp add: card_Diff_subset distinct_card)
  finally show ?thesis
    using assms card_mono [of "{0..<length x0}" "set r"] by (simp add: distinct_card)
qed

lemma kept_snoc:
  assumes "j < length (kept x0 r)"
  shows "kept x0 (r @ [kept x0 r ! j]) = take j (kept x0 r) @ drop (Suc j) (kept x0 r)"
proof -
  have "kept x0 (r @ [kept x0 r ! j]) = filter (\<lambda>q. q \<noteq> kept x0 r ! j) (kept x0 r)"
    by (simp add: kept_def conj_commute)
  then show ?thesis using assms by (simp add: filter_neq_nth kept_distinct)
qed

lemma kept_nth_bound:
  assumes "Suc j < length (kept x0 r)"
  shows "kept x0 r ! j < length x0 - 1"
proof -
  have "kept x0 r ! j < kept x0 r ! Suc j"
    using assms kept_sorted [of x0 r] by (simp add: sorted_wrt_nth_less)
  moreover have "kept x0 r ! Suc j \<in> set (kept x0 r)" using assms by simp
  ultimately show ?thesis by (auto simp: set_kept)
qed

lemma reduction_length:
  assumes "reduction x0 x r"
  shows "length x + length r = length x0"
proof -
  from assms have "distinct r" "set r \<subseteq> {0..<length x0}" "length x = length (kept x0 r)"
    by (auto simp: reduction_def)
  then show ?thesis using length_kept [of r x0] by simp
qed

lemma beam_ok_length: "beam_ok x0 x idx r \<Longrightarrow> length idx = length x"
  by (simp add: beam_ok_def reduction_def)

lemma beam_ok_child:
  assumes ok: "beam_ok x0 x idx r" and j: "j < length x - 1"
  shows "beam_ok x0 (take j x @ drop (Suc j) x) (take j idx @ drop (Suc j) idx) (r @ [idx ! j])"
proof -
  from ok have idx: "idx = kept x0 r" and x: "x = map ((!) x0) (kept x0 r)"
    and r: "distinct r" "set r \<subseteq> {0..<length x0 - 1}"
    by (simp_all add: beam_ok_def reduction_def)
  from j x have j': "Suc j < length (kept x0 r)" by simp
  then have mem: "kept x0 r ! j \<in> set (kept x0 r)" by simp
  have k: "kept x0 (r @ [kept x0 r ! j]) = take j (kept x0 r) @ drop (Suc j) (kept x0 r)"
    using j' by (simp add: kept_snoc)
  have "distinct (r @ [kept x0 r ! j])"
    using r mem by (simp add: set_kept)
  moreover have "set (r @ [kept x0 r ! j]) \<subseteq> {0..<length x0 - 1}"
    using r kept_nth_bound [OF j'] by simp
  moreover have "take j x @ drop (Suc j) x = map ((!) x0) (kept x0 (r @ [kept x0 r ! j]))"
    unfolding k x by (simp add: take_map drop_map)
  ultimately show ?thesis
    unfolding beam_ok_def reduction_def idx k by simp
qed

lemma beam_ok_init: "beam_ok x0 x0 [0..<length x0] []"
  by (simp add: beam_ok_def reduction_def kept_def map_nth)

subsection \<open>\<^verbatim>\<open>remove_one\<close> raises no exception and keeps the beams well-formed\<close>

lemma in_slice_less_sum: "e < length nbs \<Longrightarrow> in_slice nbs e i \<Longrightarrow> i < sum_list nbs"
  using slice_end_le_sum [of e nbs] by (simp add: in_slice_def)

lemma expanded_parent:
  assumes ex: "expanded m k xs nbs ind rmd nx nn ni nr e" and t: "in_slice nn e t"
  shows "\<exists>i j. in_slice nbs e i \<and> j \<in> set (candidates m k (xs ! i))
           \<and> child xs ind rmd (i, j) = Some (nx ! t, ni ! t, nr ! t)"
proof -
  define t' where "t' = t - slice_start nn e"
  from t have t': "t' < nn ! e" and tt: "t = slice_start nn e + t'"
    by (auto simp: in_slice_def t'_def)
  let ?sel = "select k (example_pool m k xs nbs e)"
  from ex t' have len: "t' < length ?sel"
    and c: "child xs ind rmd (?sel ! t') = Some (nx ! t, ni ! t, nr ! t)"
    by (simp_all add: expanded_def tt)
  from len have "?sel ! t' \<in> set ?sel" by simp
  from select_example_pool_mem [OF this] c show ?thesis
    by (cases "?sel ! t'") auto
qed

lemma expand_example_defined:
  assumes e: "e < length nbs" and st: "start s = slice_start nbs e"
    and fit: "sum_list nbs \<le> length xs"
    and wf: "\<And>i. in_slice nbs e i \<Longrightarrow> i < length ind \<and> i < length rmd
               \<and> length (ind ! i) = length (xs ! i)"
  shows "\<exists>s'. expand_example xs nbs ind rmd (get_onehot_grad m xs)
                  (map (\<lambda>x. argsort (butlast x)) (get_onehot_grad m xs)) k e s = Some s'"
proof -
  from e fit have fit': "slice_start nbs e + nbs ! e \<le> length xs"
    using slice_end_le_sum [OF e] by simp
  have "\<exists>y. child xs ind rmd c = Some y" if "c \<in> set (select k (example_pool m k xs nbs e))" for c
  proof -
    obtain i j where c: "c = (i, j)" by (cases c)
    from select_example_pool_mem [OF that] c
    have i: "in_slice nbs e i" and j: "j \<in> set (candidates m k (xs ! i))" by simp_all
    from i fit' have "i < length xs" by (simp add: in_slice_def)
    moreover from candidates_bound [OF j] wf [OF i] have "j < length (ind ! i)" by simp
    ultimately show ?thesis using wf [OF i] unfolding c by (simp add: child_def)
  qed
  then obtain cs where
    "those (map (child xs ind rmd) (select k (example_pool m k xs nbs e))) = Some cs"
    using those_map_defined by blast
  with e st fit' show ?thesis
    by (simp add: expand_example_def pool_eq_Some [THEN iffD2] Let_def)
qed

lemma remove_one_defined:
  assumes fit: "sum_list nbs \<le> length xs"
    and wf: "\<And>e i. e < length nbs \<Longrightarrow> in_slice nbs e i \<Longrightarrow> i < length ind \<and> i < length rmd
               \<and> length (ind ! i) = length (xs ! i)"
  shows "\<exists>out. remove_one m xs nbs ind rmd k = Some out"
proof -
  let ?f = "expand_example xs nbs ind rmd (get_onehot_grad m xs)
              (map (\<lambda>x. argsort (butlast x)) (get_onehot_grad m xs)) k"
  let ?I = "\<lambda>e s. start s = slice_start nbs e"
  have "\<exists>s'. for_each ?f [0..<length nbs]
       \<lparr>new_xs = [], new_n_beams = [], new_indices = [], new_removed_indices = [], start = 0\<rparr>
       = Some s' \<and> ?I (length nbs) s'"
  proof (rule for_each_upt_total [where I = ?I])
    fix e and t :: expansion
    assume e: "e < length nbs" and I: "?I e t"
    have "\<exists>t'. ?f e t = Some t'"
      by (rule expand_example_defined [OF e I fit]) (rule wf [OF e])
    then obtain t' where t': "?f e t = Some t'" by blast
    from expand_example_step [OF t' I] have "?I (Suc e) t'" by blast
    with t' show "\<exists>t'. ?f e t = Some t' \<and> ?I (Suc e) t'" by blast
  qed simp_all
  then show ?thesis by (auto simp: remove_one_def Let_def)
qed

lemma remove_one_beams_ok:
  assumes ok: "beams_ok xs0 xs nbs ind rmd"
  shows "\<exists>nx nn ni nr. remove_one m xs nbs ind rmd k = Some (nx, nn, ni, nr)
           \<and> beams_ok xs0 nx nn ni nr"
proof -
  from ok have len: "length nbs = length xs0" "length xs = sum_list nbs"
    "length ind = sum_list nbs" "length rmd = sum_list nbs"
    and b: "\<And>e i. e < length xs0 \<Longrightarrow> in_slice nbs e i
              \<Longrightarrow> beam_ok (xs0 ! e) (xs ! i) (ind ! i) (rmd ! i)"
    by (simp_all add: beams_ok_def)
  have "\<exists>out. remove_one m xs nbs ind rmd k = Some out"
  proof (rule remove_one_defined)
    fix e i assume "e < length nbs" "in_slice nbs e i"
    with len b [of e i] in_slice_less_sum [of e nbs i]
    show "i < length ind \<and> i < length rmd \<and> length (ind ! i) = length (xs ! i)"
      by (simp add: beam_ok_length)
  qed (simp add: len)
  then obtain nx nn ni nr where out: "remove_one m xs nbs ind rmd k = Some (nx, nn, ni, nr)"
    by (metis prod_cases4)
  note spec = remove_one_spec [OF out]
  have "beam_ok (xs0 ! e) (nx ! t) (ni ! t) (nr ! t)" if e: "e < length xs0" and t: "in_slice nn e t"
    for e t
  proof -
    from spec e len have "expanded m k xs nbs ind rmd nx nn ni nr e" by simp
    from expanded_parent [OF this t] obtain i j where i: "in_slice nbs e i"
      and j: "j \<in> set (candidates m k (xs ! i))"
      and c: "child xs ind rmd (i, j) = Some (nx ! t, ni ! t, nr ! t)"
      by blast
    from beam_ok_child [OF b [OF e i] candidates_bound [OF j]] c
    show ?thesis by (simp add: child_eq_Some)
  qed
  with spec len out show ?thesis by (simp add: beams_ok_def)
qed

lemma slice_owner: "i < sum_list nbs \<Longrightarrow> \<exists>e<length nbs. in_slice nbs e i"
proof (induction nbs rule: rev_induct)
  case Nil
  then show ?case by simp
next
  case (snoc a nbs)
  show ?case
  proof (cases "i < sum_list nbs")
    case True
    with snoc.IH obtain e where "e < length nbs" "in_slice nbs e i" by blast
    then have "e < length (nbs @ [a]) \<and> in_slice (nbs @ [a]) e i"
      by (simp add: in_slice_def slice_start_append nth_append)
    then show ?thesis by blast
  next
    case False
    with snoc.prems have "in_slice (nbs @ [a]) (length nbs) i"
      by (simp add: in_slice_def slice_start_append)
    then show ?thesis by auto
  qed
qed

section \<open>The bookkeeping of a round\<close>

text \<open>
  The two nested loops of lines 94 to 120 as functions of the candidates: the best results
  of example \<open>e\<close> are folded over the candidates of its slice that keep the prediction
  (\<open>matching\<close>), and \<^verbatim>\<open>remained_indices\<close> collects those of them that are longer than one
  token (\<open>survivors\<close>).
\<close>

lemma visit_step:
  assumes "visit ys_0 xs (map (predict m) xs) rmd e i b = Some b'"
  shows "i < length xs \<and> e < length ys_0 \<and> b_new_n_beams b' = b_new_n_beams b
    \<and> b_start b' = b_start b
    \<and> length (b_final_xs b') = length (b_final_xs b)
    \<and> length (b_final_removed b') = length (b_final_removed b)
    \<and> length (b_final_length b') = length (b_final_length b)
    \<and> (\<forall>e'. e' \<noteq> e \<longrightarrow> best_of b' e' = best_of b e')
    \<and> best_of b' e = (if predict m (xs ! i) = ys_0 ! e
                      then record_into (xs ! i) (rmd ! i) (best_of b e) else best_of b e)
    \<and> remained_indices b' = remained_indices b @
         (if predict m (xs ! i) = ys_0 ! e \<and> length (xs ! i) \<noteq> 1 then [i] else [])
    \<and> cnt b' = cnt b + (if predict m (xs ! i) = ys_0 ! e \<and> length (xs ! i) \<noteq> 1 then 1 else 0)"
proof -
  from assms have i: "i < length xs" and e: "e < length ys_0"
    by (auto simp: visit_def split: bind_splits)
  show ?thesis
  proof (cases "predict m (xs ! i) = ys_0 ! e")
    case False
    with assms i e show ?thesis by (simp add: visit_def)
  next
    case True
    with assms i e have fl: "e < length (b_final_length b)"
      by (auto simp: visit_def split: bind_splits)
    show ?thesis
    proof (cases "length (xs ! i) < b_final_length b ! e")
      case less: True
      with assms i e True fl show ?thesis
        by (auto simp: visit_def best_of_def record_into_def split: bind_splits if_splits)
    next
      case nless: False
      show ?thesis
      proof (cases "length (xs ! i) = b_final_length b ! e")
        case more: False
        with nless assms i e True fl show ?thesis
          by (auto simp: visit_def best_of_def record_into_def split: bind_splits if_splits)
      next
        case eq: True
        with assms i e True fl have fx: "e < length (b_final_xs b)"
          by (auto simp: visit_def split: bind_splits if_splits)
        show ?thesis
        proof (cases "xs ! i \<in> set (b_final_xs b ! e)")
          case old: True
          with eq fx assms i e True fl show ?thesis
            by (auto simp: visit_def best_of_def record_into_def split: bind_splits if_splits)
        next
          case new: False
          with eq fx assms i e True fl show ?thesis
            by (auto simp: visit_def best_of_def record_into_def split: bind_splits if_splits)
        qed
      qed
    qed
  qed
qed

lemma visit_defined:
  assumes "i < length xs" "i < length rmd" "e < length ys_0" "e < length (b_final_xs b)"
    "e < length (b_final_removed b)" "e < length (b_final_length b)"
  shows "\<exists>b'. visit ys_0 xs (map (predict (m :: model)) xs) rmd e i b = Some b'"
  using assms by (simp add: visit_def)

lemma for_each_mem:
  "for_each f js s = Some s' \<Longrightarrow> i \<in> set js \<Longrightarrow> \<exists>t t'. f i t = Some t'"
  by (induction js arbitrary: s) (auto split: option.splits)

lemma scan_example_step:
  assumes run: "scan_example ys_0 xs (map (predict m) xs) nn rmd e b = Some b'"
    and st: "b_start b = slice_start nn e"
  shows "e < length nn \<and> (nn ! e \<noteq> 0 \<longrightarrow> slice_start nn e + nn ! e \<le> length xs)
    \<and> b_start b' = slice_start nn (Suc e)
    \<and> b_new_n_beams b' = b_new_n_beams b @ [length (survivors m ys_0 xs nn e)]
    \<and> remained_indices b' = remained_indices b @ survivors m ys_0 xs nn e
    \<and> length (b_final_xs b') = length (b_final_xs b)
    \<and> length (b_final_removed b') = length (b_final_removed b)
    \<and> length (b_final_length b') = length (b_final_length b)
    \<and> (\<forall>e'. e' \<noteq> e \<longrightarrow> best_of b' e' = best_of b e')
    \<and> best_of b' e = foldl (\<lambda>tr i. record_into (xs ! i) (rmd ! i) tr) (best_of b e)
                        (matching m ys_0 xs nn e)"
proof -
  from run have e: "e < length nn"
    by (auto simp: scan_example_def split: bind_splits)
  show ?thesis
  proof (cases "nn ! e = 0")
    case True
    with run e st show ?thesis
      by (auto simp: scan_example_def survivors_def matching_def best_of_def slice_start_Suc)
  next
    case False
    let ?s = "slice_start nn e"
    let ?Pm = "\<lambda>i. predict m (xs ! i) = ys_0 ! e"
    let ?Ps = "\<lambda>i. length (xs ! i) \<noteq> 1"
    let ?I = "\<lambda>i t. b_start t = b_start b
      \<and> b_new_n_beams t = b_new_n_beams b
      \<and> length (b_final_xs t) = length (b_final_xs b)
      \<and> length (b_final_removed t) = length (b_final_removed b)
      \<and> length (b_final_length t) = length (b_final_length b)
      \<and> (\<forall>e'. e' \<noteq> e \<longrightarrow> best_of t e' = best_of b e')
      \<and> best_of t e = foldl (\<lambda>tr i. record_into (xs ! i) (rmd ! i) tr) (best_of b e)
                         (filter ?Pm [?s..<i])
      \<and> remained_indices t = remained_indices b @ filter ?Ps (filter ?Pm [?s..<i])
      \<and> cnt t = length (filter ?Ps (filter ?Pm [?s..<i]))"
    from run e st False obtain b1 where
      inner: "for_each (visit ys_0 xs (map (predict m) xs) rmd e) [?s..<?s + nn ! e]
                (b\<lparr>cnt := 0\<rparr>) = Some b1"
      and b': "b' = b1\<lparr>b_new_n_beams := b_new_n_beams b1 @ [cnt b1],
                      b_start := b_start b1 + nn ! e\<rparr>"
      by (auto simp: scan_example_def split: bind_splits)
    have I: "?I (?s + nn ! e) b1"
    proof (rule for_each_upt_partial [where I = ?I, OF inner])
      show "?I ?s (b\<lparr>cnt := 0\<rparr>)"
        by (simp add: best_of_def)
    next
      fix i and t t' :: book
      assume i: "?s \<le> i" "i < ?s + nn ! e" and It: "?I i t"
        and step: "visit ys_0 xs (map (predict m) xs) rmd e i t = Some t'"
      note v = visit_step [OF step]
      from i(1) have upt: "[?s..<Suc i] = [?s..<i] @ [i]" by simp
      from v It show "?I (Suc i) t'"
        unfolding upt by simp
    qed simp
    from False have "?s + nn ! e - 1 \<in> set [?s..<?s + nn ! e]" by simp
    from for_each_mem [OF inner this] have fit: "?s + nn ! e \<le> length xs"
      using False by (auto dest!: visit_step)
    from I b' st e fit show ?thesis
      by (simp add: survivors_def matching_def best_of_def slice_start_Suc)
  qed
qed

lemma scan_example_defined:
  assumes e: "e < length nn" and st: "b_start b = slice_start nn e"
    and fit: "sum_list nn \<le> length xs" "sum_list nn \<le> length rmd"
    and len: "e < length ys_0" "e < length (b_final_xs b)" "e < length (b_final_removed b)"
      "e < length (b_final_length b)"
  shows "\<exists>b'. scan_example ys_0 xs (map (predict (m :: model)) xs) nn rmd e b = Some b'"
proof -
  let ?s = "slice_start nn e"
  let ?I = "\<lambda>(i::nat) t. length (b_final_xs t) = length (b_final_xs b)
      \<and> length (b_final_removed t) = length (b_final_removed b)
      \<and> length (b_final_length t) = length (b_final_length b)"
  have "\<exists>b1. for_each (visit ys_0 xs (map (predict m) xs) rmd e) [?s..<?s + nn ! e]
                (b\<lparr>cnt := 0\<rparr>) = Some b1 \<and> ?I (?s + nn ! e) b1"
  proof (rule for_each_upt_total [where I = ?I])
    fix i and t :: book
    assume i: "i < ?s + nn ! e" and It: "?I i t"
    from i slice_end_le_sum [OF e] fit have "i < length xs" "i < length rmd" by simp_all
    from visit_defined [OF this len(1), of t m] It len
    obtain t' where t': "visit ys_0 xs (map (predict m) xs) rmd e i t = Some t'" by auto
    from visit_step [OF t'] It have "?I (Suc i) t'" by simp
    with t' show "\<exists>t'. visit ys_0 xs (map (predict m) xs) rmd e i t = Some t' \<and> ?I (Suc i) t'"
      by blast
  qed simp_all
  with e st show ?thesis by (auto simp: scan_example_def)
qed

lemma bookkeeping_spec:
  assumes run: "for_each (scan_example ys_0 xs (map (predict m) xs) nn rmd) [0..<n] b0 = Some b"
    and b0: "b_start b0 = 0" "b_new_n_beams b0 = []" "remained_indices b0 = []"
  shows "n \<le> length nn
    \<and> b_new_n_beams b = map (\<lambda>e. length (survivors m ys_0 xs nn e)) [0..<n]
    \<and> remained_indices b = concat (map (survivors m ys_0 xs nn) [0..<n])
    \<and> length (b_final_xs b) = length (b_final_xs b0)
    \<and> length (b_final_removed b) = length (b_final_removed b0)
    \<and> length (b_final_length b) = length (b_final_length b0)
    \<and> (\<forall>e. best_of b e = (if e < n
          then foldl (\<lambda>tr i. record_into (xs ! i) (rmd ! i) tr) (best_of b0 e)
                 (matching m ys_0 xs nn e)
          else best_of b0 e))
    \<and> (\<forall>e<n. nn ! e \<noteq> 0 \<longrightarrow> slice_start nn e + nn ! e \<le> length xs)"
proof -
  let ?I = "\<lambda>n b. n \<le> length nn \<and> b_start b = slice_start nn n
    \<and> b_new_n_beams b = map (\<lambda>e. length (survivors m ys_0 xs nn e)) [0..<n]
    \<and> remained_indices b = concat (map (survivors m ys_0 xs nn) [0..<n])
    \<and> length (b_final_xs b) = length (b_final_xs b0)
    \<and> length (b_final_removed b) = length (b_final_removed b0)
    \<and> length (b_final_length b) = length (b_final_length b0)
    \<and> (\<forall>e. best_of b e = (if e < n
          then foldl (\<lambda>tr i. record_into (xs ! i) (rmd ! i) tr) (best_of b0 e)
                 (matching m ys_0 xs nn e)
          else best_of b0 e))
    \<and> (\<forall>e<n. nn ! e \<noteq> 0 \<longrightarrow> slice_start nn e + nn ! e \<le> length xs)"
  have "?I n b"
  proof (rule for_each_upt_partial [where I = ?I, OF run])
    show "?I 0 b0" using b0 by simp
  next
    fix e and t t' :: book
    assume It: "?I e t"
      and step: "scan_example ys_0 xs (map (predict m) xs) nn rmd e t = Some t'"
    from It have st: "b_start t = slice_start nn e" by simp
    note s = scan_example_step [OF step st]
    have "best_of t' e' = (if e' < Suc e
          then foldl (\<lambda>tr i. record_into (xs ! i) (rmd ! i) tr) (best_of b0 e')
                 (matching m ys_0 xs nn e')
          else best_of b0 e')" for e'
      using s It by (cases "e' = e") auto
    moreover have "\<forall>e'<Suc e. nn ! e' \<noteq> 0 \<longrightarrow> slice_start nn e' + nn ! e' \<le> length xs"
      using s It by (auto simp: less_Suc_eq)
    ultimately show "?I (Suc e) t'"
      using s It by simp
  qed simp
  then show ?thesis by simp
qed

lemma bookkeeping_defined:
  assumes n: "n \<le> length nn" and b0: "b_start b0 = 0"
    and fit: "sum_list nn \<le> length xs" "sum_list nn \<le> length rmd"
    and len: "n \<le> length ys_0" "n \<le> length (b_final_xs b0)"
      "n \<le> length (b_final_removed b0)" "n \<le> length (b_final_length b0)"
  shows "\<exists>b. for_each (scan_example ys_0 xs (map (predict (m :: model)) xs) nn rmd)
               [0..<n] b0 = Some b"
proof -
  let ?I = "\<lambda>e b. b_start b = slice_start nn e
    \<and> length (b_final_xs b) = length (b_final_xs b0)
    \<and> length (b_final_removed b) = length (b_final_removed b0)
    \<and> length (b_final_length b) = length (b_final_length b0)"
  have "\<exists>b. for_each (scan_example ys_0 xs (map (predict m) xs) nn rmd) [0..<n] b0 = Some b
          \<and> ?I n b"
  proof (rule for_each_upt_total [where I = ?I])
    fix e and t :: book
    assume e: "e < n" and It: "?I e t"
    from e n have e': "e < length nn" by simp
    from It have st: "b_start t = slice_start nn e" by simp
    have "\<exists>t'. scan_example ys_0 xs (map (predict m) xs) nn rmd e t = Some t'"
      by (rule scan_example_defined [OF e' st fit]) (use e len It in auto)
    then obtain t' where t': "scan_example ys_0 xs (map (predict m) xs) nn rmd e t = Some t'"
      by blast
    from scan_example_step [OF t' st] It have "?I (Suc e) t'" by simp
    with t' show "\<exists>t'. scan_example ys_0 xs (map (predict m) xs) nn rmd e t = Some t'
                    \<and> ?I (Suc e) t'"
      by blast
  qed (simp_all add: b0)
  then show ?thesis by blast
qed

lemma fin_ok_record_into:
  assumes "fin_ok m x0 tr" "reduction x0 x r" "predict m x = predict m x0"
  shows "fin_ok m x0 (record_into x r tr)"
proof -
  obtain fx fr fl where tr: "tr = (fx, fr, fl)" by (cases tr)
  show ?thesis
    using assms unfolding tr fin_ok_def record_into_def
    by (auto simp: nth_append)
qed

lemma fin_ok_foldl:
  assumes "fin_ok m x0 tr"
    and "\<And>i. i \<in> set js \<Longrightarrow> reduction x0 (xs ! i) (rmd ! i) \<and> predict m (xs ! i) = predict m x0"
  shows "fin_ok m x0 (foldl (\<lambda>tr i. record_into (xs ! i) (rmd ! i) tr) tr js)"
  using assms by (induction js arbitrary: tr) (simp_all add: fin_ok_record_into)

lemma those_map_py_nth:
  "those (map (py_nth xs) js) = Some ys \<longleftrightarrow> (\<forall>i\<in>set js. i < length xs) \<and> ys = map ((!) xs) js"
  by (induction js arbitrary: ys) (auto split: option.splits)

lemma concat_nth_slice:
  "e < length L \<Longrightarrow> in_slice (map length L) e t \<Longrightarrow>
   t - slice_start (map length L) e < length (L ! e)
   \<and> concat L ! t = L ! e ! (t - slice_start (map length L) e)"
proof (induction L arbitrary: e t)
  case Nil
  then show ?case by simp
next
  case (Cons a L)
  show ?case
  proof (cases e)
    case 0
    with Cons.prems show ?thesis by (simp add: in_slice_def nth_append)
  next
    case (Suc e')
    have s: "slice_start (map length (a # L)) (Suc e') = length a + slice_start (map length L) e'"
      by (simp add: slice_start_def)
    from Cons.prems Suc s have "in_slice (map length L) e' (t - length a)" and t: "length a \<le> t"
      by (auto simp: in_slice_def)
    with Cons.IH [of e' "t - length a"] Cons.prems Suc s t show ?thesis
      by (simp add: nth_append)
  qed
qed

lemma matching_in_slice: "i \<in> set (matching m ys_0 xs nn e) \<longleftrightarrow>
    in_slice nn e i \<and> predict m (xs ! i) = ys_0 ! e"
  by (auto simp: matching_def in_slice_def)

lemma survivors_in_slice: "i \<in> set (survivors m ys_0 xs nn e) \<longleftrightarrow>
    in_slice nn e i \<and> predict m (xs ! i) = ys_0 ! e \<and> length (xs ! i) \<noteq> 1"
  by (auto simp: survivors_def matching_in_slice)


section \<open>One round\<close>

lemma round_cases:
  assumes "round m k n ys_0 st = Some (st', d)"
  shows "\<exists>nx nn ni nr b.
     remove_one m (s_xs st) (s_n_beams st) (s_indices st) (s_removed_indices st) k
       = Some (nx, nn, ni, nr)
   \<and> for_each (scan_example ys_0 nx (map (predict m) nx) nn nr) [0..<n] (book0 st) = Some b
   \<and> d = (remained_indices b = [])
   \<and> final_xs st' = b_final_xs b \<and> final_removed st' = b_final_removed b
   \<and> final_length st' = b_final_length b
   \<and> (d \<longrightarrow> s_xs st' = nx \<and> s_n_beams st' = nn \<and> s_indices st' = ni
           \<and> s_removed_indices st' = nr)
   \<and> (\<not> d \<longrightarrow> (\<forall>i\<in>set (remained_indices b). i < length nx \<and> i < length ni \<and> i < length nr)
           \<and> s_xs st' = map ((!) nx) (remained_indices b)
           \<and> s_indices st' = map ((!) ni) (remained_indices b)
           \<and> s_removed_indices st' = map ((!) nr) (remained_indices b)
           \<and> s_n_beams st' = b_new_n_beams b)"
  using assms unfolding round_def book0_def Let_def
  by (auto split: bind_splits if_splits prod.splits simp: those_map_py_nth)

lemma round_defined:
  assumes "remove_one m (s_xs st) (s_n_beams st) (s_indices st) (s_removed_indices st) k
       = Some (nx, nn, ni, nr)"
    and "for_each (scan_example ys_0 nx (map (predict m) nx) nn nr) [0..<n] (book0 st) = Some b"
    and "\<forall>i\<in>set (remained_indices b). i < length nx \<and> i < length ni \<and> i < length nr"
  shows "\<exists>st' d. round m k n ys_0 st = Some (st', d)"
proof -
  from assms(3) have
    "those (map (py_nth nx) (remained_indices b)) = Some (map ((!) nx) (remained_indices b))"
    "those (map (py_nth ni) (remained_indices b)) = Some (map ((!) ni) (remained_indices b))"
    "those (map (py_nth nr) (remained_indices b)) = Some (map ((!) nr) (remained_indices b))"
    by (simp_all add: those_map_py_nth)
  with assms(1,2) show ?thesis
    unfolding round_def Let_def by (auto simp: book0_def)
qed

lemma book0_simps [simp]:
  "b_final_xs (book0 st) = final_xs st" "b_final_removed (book0 st) = final_removed st"
  "b_final_length (book0 st) = final_length st" "b_new_n_beams (book0 st) = []"
  "b_start (book0 st) = 0" "remained_indices (book0 st) = []"
  by (simp_all add: book0_def)

lemma remained_slice:
  assumes e: "e < n"
    and t: "in_slice (map (\<lambda>e. length (survivors m ys_0 xs nn e)) [0..<n]) e t"
  shows "t < length (concat (map (survivors m ys_0 xs nn) [0..<n]))
     \<and> concat (map (survivors m ys_0 xs nn) [0..<n]) ! t \<in> set (survivors m ys_0 xs nn e)"
proof -
  let ?L = "map (survivors m ys_0 xs nn) [0..<n]"
  have ml: "map length ?L = map (\<lambda>e. length (survivors m ys_0 xs nn e)) [0..<n]"
    by simp
  from e have eL: "e < length ?L" by simp
  from t have t': "in_slice (map length ?L) e t" unfolding ml .
  from concat_nth_slice [OF eL t'] e
  have "concat ?L ! t \<in> set (survivors m ys_0 xs nn e)"
    by (metis (no_types, lifting) add_0 diff_zero length_upt nth_map nth_mem nth_upt)
  moreover from in_slice_less_sum [of e "map length ?L" t] eL t'
  have "t < length (concat ?L)" by (simp add: length_concat)
  ultimately show ?thesis by blast
qed

lemma round_survivors:
  assumes r: "round m k n ys_0 st = Some (st', False)"
  shows "length (s_n_beams st') = n \<and> n \<le> length (s_n_beams st)
    \<and> length (s_xs st') = sum_list (s_n_beams st')
    \<and> length (s_indices st') = sum_list (s_n_beams st')
    \<and> length (s_removed_indices st') = sum_list (s_n_beams st')
    \<and> s_xs st' \<noteq> []
    \<and> (\<forall>e<n. \<forall>t. in_slice (s_n_beams st') e t \<longrightarrow>
          predict m (s_xs st' ! t) = ys_0 ! e \<and> length (s_xs st' ! t) \<noteq> 1
          \<and> (\<exists>i j. in_slice (s_n_beams st) e i
                \<and> j \<in> set (candidates m k (s_xs st ! i))
                \<and> child (s_xs st) (s_indices st) (s_removed_indices st) (i, j)
                    = Some (s_xs st' ! t, s_indices st' ! t, s_removed_indices st' ! t)))"
proof -
  from round_cases [OF r] obtain nx nn ni nr b where
    ro: "remove_one m (s_xs st) (s_n_beams st) (s_indices st) (s_removed_indices st) k
           = Some (nx, nn, ni, nr)"
    and bk: "for_each (scan_example ys_0 nx (map (predict m) nx) nn nr) [0..<n] (book0 st)
           = Some b"
    and ne: "remained_indices b \<noteq> []"
    and rng: "\<forall>i\<in>set (remained_indices b). i < length nx \<and> i < length ni \<and> i < length nr"
    and st': "s_xs st' = map ((!) nx) (remained_indices b)"
      "s_indices st' = map ((!) ni) (remained_indices b)"
      "s_removed_indices st' = map ((!) nr) (remained_indices b)"
      "s_n_beams st' = b_new_n_beams b"
    by auto
  note rs = remove_one_spec [OF ro]
  from bookkeeping_spec [OF bk] have n: "n \<le> length nn"
    and nb: "b_new_n_beams b = map (\<lambda>e. length (survivors m ys_0 nx nn e)) [0..<n]"
    and rem: "remained_indices b = concat (map (survivors m ys_0 nx nn) [0..<n])"
    by simp_all
  have len: "length (remained_indices b) = sum_list (b_new_n_beams b)"
    unfolding nb rem by (simp add: length_concat comp_def)
  have slice: "predict m (s_xs st' ! t) = ys_0 ! e \<and> length (s_xs st' ! t) \<noteq> 1
          \<and> (\<exists>i j. in_slice (s_n_beams st) e i
                \<and> j \<in> set (candidates m k (s_xs st ! i))
                \<and> child (s_xs st) (s_indices st) (s_removed_indices st) (i, j)
                    = Some (s_xs st' ! t, s_indices st' ! t, s_removed_indices st' ! t))"
    if e: "e < n" and t: "in_slice (s_n_beams st') e t" for e t
  proof -
    from t have "in_slice (map (\<lambda>e. length (survivors m ys_0 nx nn e)) [0..<n]) e t"
      by (simp add: st' nb)
    from remained_slice [OF e this] have tl: "t < length (remained_indices b)"
      and sv: "remained_indices b ! t \<in> set (survivors m ys_0 nx nn e)"
      by (simp_all add: rem)
    let ?i = "remained_indices b ! t"
    from sv have i: "in_slice nn e ?i" "predict m (nx ! ?i) = ys_0 ! e" "length (nx ! ?i) \<noteq> 1"
      by (simp_all add: survivors_in_slice)
    from rs e n have "expanded m k (s_xs st) (s_n_beams st) (s_indices st)
        (s_removed_indices st) nx nn ni nr e" by simp
    from expanded_parent [OF this i(1)] i(2,3) tl show ?thesis
      by (simp add: st')
  qed
  from rs n nb len st' ne slice show ?thesis by simp
qed

lemma child_length:
  assumes "child xs ind rmd (i, j) = Some (x', idx', r')" "j \<in> set (candidates m k (xs ! i))"
  shows "i < length xs \<and> length (xs ! i) = Suc (length x') \<and> 1 \<le> length x'"
  using assms candidates_bound [OF assms(2)] by (auto simp: child_eq_Some)

lemma round_shrinks:
  assumes r: "round m k n ys_0 st = Some (st', False)" and x': "x' \<in> set (s_xs st')"
  shows "2 \<le> length x' \<and> (\<exists>x\<in>set (s_xs st). length x = Suc (length x'))"
proof -
  note rs = round_survivors [OF r]
  from x' obtain t where t: "t < length (s_xs st')" "x' = s_xs st' ! t"
    by (auto simp: in_set_conv_nth)
  with rs have "t < sum_list (s_n_beams st')" by simp
  from slice_owner [OF this] rs obtain e where e: "e < n" "in_slice (s_n_beams st') e t"
    by auto
  with rs obtain i j where "length (s_xs st' ! t) \<noteq> 1"
    "j \<in> set (candidates m k (s_xs st ! i))"
    "child (s_xs st) (s_indices st) (s_removed_indices st) (i, j)
       = Some (s_xs st' ! t, s_indices st' ! t, s_removed_indices st' ! t)"
    by blast
  with child_length [OF this(3,2)] t show ?thesis by force
qed

section \<open>Termination of the loop\<close>

text \<open>
  A round that does not end the loop leaves beams that are each one token shorter than a
  beam before the round, so the length of the longest beam decreases.
\<close>

lemma longest_ge: "x \<in> set xs \<Longrightarrow> length x \<le> longest xs"
  by (simp add: longest_def)

lemma longest_mem: "xs \<noteq> [] \<Longrightarrow> \<exists>x\<in>set xs. longest xs = length x"
proof -
  assume "xs \<noteq> []"
  then have ne: "set (map length xs) \<noteq> {}" by simp
  have "Max (insert 0 (set (map length xs))) = Max (set (map length xs))"
    using ne by (simp add: Max_insert max_def)
  moreover have "Max (set (map length xs)) \<in> set (map length xs)"
    using ne by (intro Max_in) simp_all
  ultimately show ?thesis by (auto simp: longest_def)
qed

lemma round_longest:
  assumes "round m k n ys_0 st = Some (st', False)"
  shows "2 \<le> longest (s_xs st') \<and> longest (s_xs st') < longest (s_xs st)"
proof -
  from round_survivors [OF assms] have "s_xs st' \<noteq> []" by simp
  from longest_mem [OF this] obtain x' where x': "x' \<in> set (s_xs st')"
    "longest (s_xs st') = length x'" by blast
  from round_shrinks [OF assms x'(1)] obtain x where
    "2 \<le> length x'" "x \<in> set (s_xs st)" "length x = Suc (length x')" by blast
  then show ?thesis using x'(2) longest_ge [of x "s_xs st"] by simp
qed

termination get_rawr_loop
  by (relation "measure (\<lambda>(m, k, n, ys_0, st). longest (s_xs st))")
     (auto dest: round_longest)

termination rawr_rounds
  by (relation "measure (\<lambda>(m, k, n, ys_0, st). longest (s_xs st))")
     (auto dest: round_longest)

declare get_rawr_loop.simps [simp del] rawr_rounds.simps [simp del]


section \<open>The invariant of the search\<close>

lemma slice_start_ones: "e \<le> length xs \<Longrightarrow> slice_start (map (\<lambda>_. Suc 0) xs) e = e"
  by (simp add: slice_start_def take_map sum_list_triv)

lemma in_slice_ones: "e < length xs \<Longrightarrow> in_slice (map (\<lambda>_. Suc 0) xs) e i \<longleftrightarrow> i = e"
  by (auto simp: in_slice_def slice_start_ones)

lemma reduction_self: "reduction x0 x0 []"
  by (simp add: reduction_def kept_def map_nth)

lemma inv_init: "inv m xs0 (init xs0)"
proof -
  have "beams_ok xs0 xs0 (map (\<lambda>_. 1) xs0) (map (\<lambda>x. [0..<length x]) xs0) (map (\<lambda>_. []) xs0)"
    by (simp add: beams_ok_def sum_list_triv in_slice_ones beam_ok_init)
  moreover have "finals_ok m xs0 (map (\<lambda>x. [x]) xs0) (map (\<lambda>_. [[]]) xs0) (map length xs0)"
    by (simp add: finals_ok_def fin_ok_def reduction_self)
  moreover have "live_ok m xs0 xs0 (map (\<lambda>_. 1) xs0)"
    by (simp add: live_ok_def in_slice_ones)
  ultimately show ?thesis by (simp add: inv_def post_def init_def)
qed

lemma round_finals_ok:
  assumes ok: "beams_ok xs0 nx nn ni nr"
    and fin: "finals_ok m xs0 (final_xs st) (final_removed st) (final_length st)"
    and bk: "for_each (scan_example (map (predict m) xs0) nx (map (predict m) nx) nn nr)
               [0..<length xs0] (book0 st) = Some b"
  shows "finals_ok m xs0 (b_final_xs b) (b_final_removed b) (b_final_length b)"
proof -
  note sp = bookkeeping_spec [OF bk]
  have "fin_ok m (xs0 ! e) (b_final_xs b ! e, b_final_removed b ! e, b_final_length b ! e)"
    if e: "e < length xs0" for e
  proof -
    from sp e have "best_of b e = foldl (\<lambda>tr i. record_into (nx ! i) (nr ! i) tr)
        (best_of (book0 st) e) (matching m (map (predict m) xs0) nx nn e)"
      by simp
    moreover have "fin_ok m (xs0 ! e) (foldl (\<lambda>tr i. record_into (nx ! i) (nr ! i) tr)
        (best_of (book0 st) e) (matching m (map (predict m) xs0) nx nn e))"
    proof (rule fin_ok_foldl)
      show "fin_ok m (xs0 ! e) (best_of (book0 st) e)"
        using fin e by (simp add: finals_ok_def best_of_def)
    next
      fix i assume "i \<in> set (matching m (map (predict m) xs0) nx nn e)"
      then have "in_slice nn e i" "predict m (nx ! i) = predict m (xs0 ! e)"
        using e by (simp_all add: matching_in_slice)
      with ok e show "reduction (xs0 ! e) (nx ! i) (nr ! i)
          \<and> predict m (nx ! i) = predict m (xs0 ! e)"
        by (simp add: beams_ok_def beam_ok_def)
    qed
    ultimately show ?thesis by (simp add: best_of_def)
  qed
  with sp fin show ?thesis by (simp add: finals_ok_def)
qed

lemma round_inv:
  assumes inv: "inv m xs0 st"
  shows "\<exists>st' d. round m k (length xs0) (map (predict m) xs0) st = Some (st', d)"
    and "round m k (length xs0) (map (predict m) xs0) st = Some (st', d)
         \<Longrightarrow> post m xs0 st' \<and> (\<not> d \<longrightarrow> inv m xs0 st')"
proof -
  let ?n = "length xs0" and ?ys = "map (predict m) xs0"
  from inv have ok: "beams_ok xs0 (s_xs st) (s_n_beams st) (s_indices st) (s_removed_indices st)"
    and fin: "finals_ok m xs0 (final_xs st) (final_removed st) (final_length st)"
    by (simp_all add: inv_def post_def)
  from remove_one_beams_ok [OF ok, of m k] obtain nx nn ni nr where
    ro: "remove_one m (s_xs st) (s_n_beams st) (s_indices st) (s_removed_indices st) k
           = Some (nx, nn, ni, nr)"
    and ok1: "beams_ok xs0 nx nn ni nr"
    by blast
  from ok1 have len1: "length nn = ?n" "length nx = sum_list nn" "length ni = sum_list nn"
    "length nr = sum_list nn"
    by (simp_all add: beams_ok_def)
  have "\<exists>b. for_each (scan_example ?ys nx (map (predict m) nx) nn nr) [0..<?n] (book0 st)
          = Some b"
    by (rule bookkeeping_defined) (use len1 fin in \<open>simp_all add: finals_ok_def\<close>)
  then obtain b where
    bk: "for_each (scan_example ?ys nx (map (predict m) nx) nn nr) [0..<?n] (book0 st) = Some b"
    by blast
  note sp = bookkeeping_spec [OF bk]
  have rng: "\<forall>i\<in>set (remained_indices b). i < length nx \<and> i < length ni \<and> i < length nr"
  proof
    fix i assume "i \<in> set (remained_indices b)"
    with sp obtain e where "e < ?n" "i \<in> set (survivors m ?ys nx nn e)" by auto
    then have "e < length nn" "in_slice nn e i" by (simp_all add: survivors_in_slice len1)
    from in_slice_less_sum [OF this] len1
    show "i < length nx \<and> i < length ni \<and> i < length nr" by simp
  qed
  from round_defined [OF ro bk rng]
  show "\<exists>st' d. round m k ?n ?ys st = Some (st', d)" .
  assume r: "round m k ?n ?ys st = Some (st', d)"
  from round_cases [OF r] ro bk have
    f: "final_xs st' = b_final_xs b" "final_removed st' = b_final_removed b"
      "final_length st' = b_final_length b"
    and stop: "d \<longrightarrow> s_xs st' = nx \<and> s_n_beams st' = nn \<and> s_indices st' = ni
           \<and> s_removed_indices st' = nr"
    by auto
  have fin': "finals_ok m xs0 (final_xs st') (final_removed st') (final_length st')"
    unfolding f by (rule round_finals_ok [OF ok1 fin bk])
  show "post m xs0 st' \<and> (\<not> d \<longrightarrow> inv m xs0 st')"
  proof (cases d)
    case True
    with stop ok1 fin' show ?thesis by (simp add: post_def)
  next
    case False
    with r have r': "round m k ?n ?ys st = Some (st', False)" by simp
    note rs = round_survivors [OF r']
    have "beam_ok (xs0 ! e) (s_xs st' ! t) (s_indices st' ! t) (s_removed_indices st' ! t)
        \<and> predict m (s_xs st' ! t) = predict m (xs0 ! e)"
      if e: "e < ?n" and t: "in_slice (s_n_beams st') e t" for e t
    proof -
      from rs e t obtain i j where p: "predict m (s_xs st' ! t) = ?ys ! e"
        and i: "in_slice (s_n_beams st) e i"
        and j: "j \<in> set (candidates m k (s_xs st ! i))"
        and c: "child (s_xs st) (s_indices st) (s_removed_indices st) (i, j)
                    = Some (s_xs st' ! t, s_indices st' ! t, s_removed_indices st' ! t)"
        by blast
      from ok e i have "beam_ok (xs0 ! e) (s_xs st ! i) (s_indices st ! i)
          (s_removed_indices st ! i)"
        by (simp add: beams_ok_def)
      from beam_ok_child [OF this candidates_bound [OF j]] c p e show ?thesis
        by (simp add: child_eq_Some)
    qed
    with rs fin' False show ?thesis
      by (simp add: inv_def post_def beams_ok_def live_ok_def)
  qed
qed

lemma reach_inv: "reach m k xs0 st \<Longrightarrow> inv m xs0 st"
  by (induction rule: reach.induct) (auto simp: inv_init dest: round_inv(2))

lemma get_rawr_loop_reach:
  assumes "reach m k xs0 st"
  shows "\<exists>st1 st'. reach m k xs0 st1
           \<and> round m k (length xs0) (map (predict m) xs0) st1 = Some (st', True)
           \<and> get_rawr_loop m k (length xs0) (map (predict m) xs0) st
               = Some (final_xs st', final_removed st')"
  using assms
proof (induction m k "length xs0" "map (predict m) xs0" st rule: get_rawr_loop.induct)
  case (1 m k st)
  from round_inv(1) [OF reach_inv [OF "1.prems"], of k] obtain st' d where
    r: "round m k (length xs0) (map (predict m) xs0) st = Some (st', d)" by blast
  show ?case
  proof (cases d)
    case True
    with r "1.prems" show ?thesis by (subst get_rawr_loop.simps) auto
  next
    case False
    with r "1.prems" have "reach m k xs0 st'" by (auto intro: reach_round)
    from "1.hyps" [OF r refl False this] r False show ?thesis
      by (subst get_rawr_loop.simps) auto
  qed
qed


section \<open>The result of \<^verbatim>\<open>get_rawr\<close>\<close>

lemma get_rawr_result:
  "\<exists>st1 st'. reach m k xs st1
     \<and> round m k (length xs) (map (predict m) xs) st1 = Some (st', True)
     \<and> get_rawr m xs k = Some (final_xs st', final_removed st')"
  using get_rawr_loop_reach [OF reach_init, of m k xs] by (simp add: get_rawr_def Let_def)

lemma get_rawr_finals:
  "\<exists>fx fr fl. get_rawr m xs k = Some (fx, fr) \<and> finals_ok m xs fx fr fl"
proof -
  from get_rawr_result [of m k xs] obtain st1 st' where
    "reach m k xs st1" "round m k (length xs) (map (predict m) xs) st1 = Some (st', True)"
    "get_rawr m xs k = Some (final_xs st', final_removed st')"
    by blast
  moreover from this have "post m xs st'"
    using round_inv(2) reach_inv by blast
  ultimately show ?thesis
    by (auto simp: post_def)
qed

lemma finals_okD:
  assumes "finals_ok m xs fx fr fl" "e < length xs"
  shows "fx ! e \<noteq> []" "length (fr ! e) = length (fx ! e)" "distinct (fx ! e)"
    "t < length (fx ! e) \<Longrightarrow> reduction (xs ! e) (fx ! e ! t) (fr ! e ! t)"
    "t < length (fx ! e) \<Longrightarrow> length (fx ! e ! t) = fl ! e"
    "t < length (fx ! e) \<Longrightarrow> predict m (fx ! e ! t) = predict m (xs ! e)"
  using assms by (simp_all add: finals_ok_def fin_ok_def)

lemma finals_ok_length:
  assumes "finals_ok m xs fx fr fl"
  shows "length fx = length xs" "length fr = length xs" "length fl = length xs"
  using assms by (simp_all add: finals_ok_def)


lemma reduction_subseq:
  assumes "reduction x0 x r"
  shows "subseq x x0"
proof -
  have "subseq (map ((!) x0) (kept x0 r)) (map ((!) x0) [0..<length x0])"
    unfolding kept_def by (intro subseq_map subseq_filter_left)
  with assms show ?thesis by (simp add: reduction_def map_nth)
qed

lemma reduction_last:
  assumes red: "reduction x0 x r" and ne: "x0 \<noteq> []"
  shows "x \<noteq> [] \<and> last x = last x0"
proof -
  from ne have up: "[0..<length x0] = [0..<length x0 - 1] @ [length x0 - 1]"
    by (metis Suc_diff_1 length_greater_0_conv upt_Suc_append zero_le)
  from red have "length x0 - 1 \<notin> set r" by (auto simp: reduction_def)
  then have "kept x0 r = filter (\<lambda>p. p \<notin> set r) [0..<length x0 - 1] @ [length x0 - 1]"
    unfolding kept_def by (subst up) simp
  with red ne show ?thesis by (simp add: reduction_def last_conv_nth)
qed

lemma reduction_partition:
  assumes "reduction x0 x r"
  shows "set r \<inter> set (kept x0 r) = {}" "set r \<union> set (kept x0 r) = {0..<length x0}"
  using assms by (auto simp: reduction_def set_kept)

lemma visit_record:
  assumes v: "visit ys_0 cs (map (predict m) cs) rmd e i b = Some b'"
    and p: "predict m (cs ! i) = ys_0 ! e"
  shows "(b_final_xs b' ! e, b_final_removed b' ! e, b_final_length b' ! e)
         = record_into (cs ! i) (rmd ! i)
             (b_final_xs b ! e, b_final_removed b ! e, b_final_length b ! e)"
    and "remained_indices b' = remained_indices b @ (if length (cs ! i) \<noteq> 1 then [i] else [])"
  using visit_step [OF v] p by (simp_all add: best_of_def)


lemma round_no_match:
  assumes r: "round m k n ys_0 st = Some (st', d)" and e: "e < n"
    and nm: "\<And>i j. in_slice (s_n_beams st) e i \<Longrightarrow> j \<in> set (candidates m k (s_xs st ! i))
      \<Longrightarrow> predict m (take j (s_xs st ! i) @ drop (Suc j) (s_xs st ! i)) \<noteq> ys_0 ! e"
  shows "final_xs st' ! e = final_xs st ! e \<and> final_removed st' ! e = final_removed st ! e
    \<and> final_length st' ! e = final_length st ! e \<and> (\<not> d \<longrightarrow> s_n_beams st' ! e = 0)"
proof -
  from round_cases [OF r] obtain nx nn ni nr b where
    ro: "remove_one m (s_xs st) (s_n_beams st) (s_indices st) (s_removed_indices st) k
           = Some (nx, nn, ni, nr)"
    and bk: "for_each (scan_example ys_0 nx (map (predict m) nx) nn nr) [0..<n] (book0 st)
           = Some b"
    and f: "final_xs st' = b_final_xs b" "final_removed st' = b_final_removed b"
      "final_length st' = b_final_length b"
    and nb: "\<not> d \<longrightarrow> s_n_beams st' = b_new_n_beams b"
    by blast
  note rs = remove_one_spec [OF ro] and sp = bookkeeping_spec [OF bk]
  from rs sp e have ex: "expanded m k (s_xs st) (s_n_beams st) (s_indices st)
      (s_removed_indices st) nx nn ni nr e" by simp
  have "matching m ys_0 nx nn e = []"
  proof (rule ccontr)
    assume "matching m ys_0 nx nn e \<noteq> []"
    then obtain i' where "i' \<in> set (matching m ys_0 nx nn e)"
      by (cases "matching m ys_0 nx nn e") auto
    then have i': "in_slice nn e i'" "predict m (nx ! i') = ys_0 ! e"
      by (simp_all add: matching_in_slice)
    from expanded_parent [OF ex i'(1)] obtain i j where "in_slice (s_n_beams st) e i"
      "j \<in> set (candidates m k (s_xs st ! i))"
      "child (s_xs st) (s_indices st) (s_removed_indices st) (i, j)
         = Some (nx ! i', ni ! i', nr ! i')"
      by blast
    with nm [OF this(1,2)] i'(2) show False by (simp add: child_eq_Some)
  qed
  with sp e have "best_of b e = best_of (book0 st) e"
    and "b_new_n_beams b ! e = 0"
    by (simp_all add: survivors_def)
  with f nb show ?thesis by (simp add: best_of_def)
qed


lemma rawr_rounds_bound:
  "rawr_rounds m k n ys_0 st \<le> max 1 (longest (s_xs st) - 1)"
proof (induction m k n ys_0 st rule: rawr_rounds.induct)
  case (1 m k n ys_0 st)
  show ?case
  proof (cases "round m k n ys_0 st")
    case None
    then show ?thesis by (subst rawr_rounds.simps) simp
  next
    case (Some p)
    obtain st' d where p: "p = (st', d)" by (cases p)
    show ?thesis
    proof (cases d)
      case True
      with Some p show ?thesis by (subst rawr_rounds.simps) simp
    next
      case False
      with Some p have r: "round m k n ys_0 st = Some (st', False)" by simp
      from "1.IH" [OF Some p [symmetric] False]
      have "rawr_rounds m k n ys_0 st' \<le> max 1 (longest (s_xs st') - 1)" .
      moreover have "rawr_rounds m k n ys_0 st = 1 + rawr_rounds m k n ys_0 st'"
        by (subst rawr_rounds.simps) (simp add: r)
      ultimately show ?thesis using round_longest [OF r] by arith
    qed
  qed
qed

lemma round_zero:
  assumes r: "round m k n ys_0 st = Some (st', d)" and e: "e < n"
    and z: "s_n_beams st ! e = 0"
  shows "s_n_beams st' ! e = 0"
proof -
  from round_cases [OF r] obtain nx nn ni nr b where
    ro: "remove_one m (s_xs st) (s_n_beams st) (s_indices st) (s_removed_indices st) k
           = Some (nx, nn, ni, nr)"
    and bk: "for_each (scan_example ys_0 nx (map (predict m) nx) nn nr) [0..<n] (book0 st)
           = Some b"
    and nb: "d \<longrightarrow> s_n_beams st' = nn" "\<not> d \<longrightarrow> s_n_beams st' = b_new_n_beams b"
    by blast
  note rs = remove_one_spec [OF ro] and sp = bookkeeping_spec [OF bk]
  from rs sp e have "expanded m k (s_xs st) (s_n_beams st) (s_indices st)
      (s_removed_indices st) nx nn ni nr e" by simp
  with z have nn: "nn ! e = 0" by (simp add: expanded_def example_pool_empty)
  with sp e have "b_new_n_beams b ! e = 0" by (simp add: survivors_def matching_def)
  with nn nb show ?thesis by (cases d) simp_all
qed

lemma remove_one_zero:
  assumes "remove_one m xs nbs ind rmd k = Some (nx, nn, ni, nr)" "e < length nbs"
    "nbs ! e = 0"
  shows "nn ! e = 0"
  using remove_one_spec [OF assms(1)] assms(2,3) by (simp add: expanded_def example_pool_empty)

lemma subseq_tl: "subseq (tl ys) ys"
  by (cases ys) auto

lemma child_subseq:
  assumes "child xs ind rmd (i, j) = Some (x', idx', r')"
  shows "subseq x' (xs ! i)"
proof -
  from assms have x': "x' = take j (xs ! i) @ drop (Suc j) (xs ! i)"
    by (simp add: child_eq_Some)
  have "drop (Suc j) (xs ! i) = tl (drop j (xs ! i))"
    by (simp add: drop_Suc tl_drop)
  then have "subseq (drop (Suc j) (xs ! i)) (drop j (xs ! i))"
    by (simp add: subseq_tl)
  then have "subseq (take j (xs ! i) @ drop (Suc j) (xs ! i))
      (take j (xs ! i) @ drop j (xs ! i))"
    by (intro list_emb_append_mono) simp_all
  then show ?thesis by (simp add: x')
qed


section \<open>The example run\<close>

lemma toy_round_1:
  "round toy_model 2 (length two_examples) (map (predict toy_model) two_examples)
     (init two_examples) = Some (after_round_1, False)"
  by code_simp

lemma toy_round_2:
  "round toy_model 2 (length two_examples) (map (predict toy_model) two_examples)
     after_round_1 = Some (after_round_2, True)"
  by code_simp

lemma toy_reach_1: "reach toy_model 2 two_examples after_round_1"
  by (rule reach_round [OF reach_init toy_round_1])


lemma beam_ok_subseq: "beam_ok x0 x idx r \<Longrightarrow> subseq x x0"
  by (auto simp: beam_ok_def intro: reduction_subseq)


section \<open>The order of the candidates\<close>

lemma sorted_take_drop:
  assumes "sorted (map f S)" "c \<in> set (take k S)" "c' \<in> set (drop k S)"
  shows "f c \<le> f c'"
proof -
  have "sorted (map f (take k S) @ map f (drop k S))"
    using assms(1) by (metis append_take_drop_id map_append)
  with assms(2,3) show ?thesis by (auto simp: sorted_append)
qed

lemma candidates_lowest:
  "set (candidates m k x) \<subseteq> {0..<length x - 1} \<and> distinct (candidates m k x)
   \<and> length (candidates m k x) = min k (length x - 1)
   \<and> sorted (map (saliency m x) (candidates m k x))
   \<and> (\<forall>j\<in>set (candidates m k x). \<forall>j'<length x - 1.
         j' \<notin> set (candidates m k x) \<longrightarrow> saliency m x j \<le> saliency m x j')"
proof -
  define v where "v = butlast (map (saliency m x) [0..<length x])"
  define A where "A = argsort v"
  have lv: "length v = length x - 1" by (simp add: v_def)
  have v: "v ! j = saliency m x j" if "j < length x - 1" for j
    using that by (simp add: v_def nth_butlast)
  have c: "candidates m k x = take k A" by (simp add: candidates_def A_def v_def)
  have setA: "set A = {0..<length x - 1}" by (simp add: A_def lv)
  have dA: "distinct A" by (simp add: A_def argsort_def)
  have sA: "sorted (map ((!) v) A)" unfolding A_def argsort_def by (rule sorted_sort_key)
  have mapA: "map ((!) v) A = map (saliency m x) A"
    using setA by (intro map_cong [OF refl]) (simp add: v)
  have 1: "set (take k A) \<subseteq> {0..<length x - 1}"
    using setA set_take_subset [of k A] by blast
  have 2: "distinct (take k A)" using dA by simp
  have 3: "length (take k A) = min k (length x - 1)"
    by (simp add: A_def argsort_def lv min.commute)
  have 4: "sorted (map (saliency m x) (take k A))"
    using sA unfolding mapA by (metis sorted_wrt_take take_map)
  have 5: "saliency m x j \<le> saliency m x j'"
    if "j \<in> set (take k A)" "j' < length x - 1" "j' \<notin> set (take k A)" for j j'
  proof -
    from that(2,3) setA have "j' \<in> set (drop k A)"
      by (metis append_take_drop_id atLeastLessThan_iff set_append Un_iff zero_le)
    from sorted_take_drop [OF sA [unfolded mapA] that(1) this] show ?thesis .
  qed
  from 1 2 3 4 5 show ?thesis unfolding c by blast
qed

lemma select_descending:
  "sorted (map (\<lambda>c. - fst c) (sort_key (\<lambda>c. - fst c) P))
   \<and> select k P = map snd (take k (sort_key (\<lambda>c. - fst c) P))
   \<and> (\<forall>c\<in>set (take k (sort_key (\<lambda>c. - fst c) P)).
        \<forall>c'\<in>set (drop k (sort_key (\<lambda>c. - fst c) P)). fst c' \<le> fst c)"
proof -
  let ?S = "sort_key (\<lambda>c. - fst c) P"
  have s: "sorted (map (\<lambda>c. - fst c) ?S)" by (rule sorted_sort_key)
  have "fst c' \<le> fst c" if "c \<in> set (take k ?S)" "c' \<in> set (drop k ?S)" for c c'
    using sorted_take_drop [OF s that] by simp
  with s show ?thesis by (simp add: select_def take_map)
qed

section \<open>The properties of the specification\<close>

text \<open>
  C1. Every sequence in the result of \<open>get_rawr\<close> has the greedy prediction of its
  example's original sequence, and so has every beam that is alive at the head of the loop:
  a candidate with another prediction is neither recorded nor kept as a beam.
\<close>

theorem prediction_preserved:
  "(\<exists>fx fr. get_rawr m xs k = Some (fx, fr) \<and> length fx = length xs
      \<and> (\<forall>e<length xs. \<forall>x\<in>set (fx ! e). predict m x = predict m (xs ! e)))
   \<and> (\<forall>st. reach m k xs st \<longrightarrow>
        (\<forall>e<length xs. \<forall>i. in_slice (s_n_beams st) e i
            \<longrightarrow> predict m (s_xs st ! i) = predict m (xs ! e)))"
proof -
  from get_rawr_finals [of m xs k] obtain fx fr fl where
    r: "get_rawr m xs k = Some (fx, fr)" and ok: "finals_ok m xs fx fr fl" by blast
  have "predict m x = predict m (xs ! e)" if "e < length xs" "x \<in> set (fx ! e)" for e x
    using finals_okD(6) [OF ok that(1)] that(2) by (auto simp: in_set_conv_nth)
  moreover have "predict m (s_xs st ! i) = predict m (xs ! e)"
    if "reach m k xs st" "e < length xs" "in_slice (s_n_beams st) e i" for st e i
    using reach_inv [OF that(1)] that(2,3) by (simp add: inv_def live_ok_def)
  ultimately show ?thesis using r finals_ok_length(1) [OF ok] by blast
qed

theorem prediction_preserved_witness:
  "get_rawr toy_model [[4, 17, 9, 2]] 5 = Some ([[[17, 2]]], [[[0, 2]]])
   \<and> predict toy_model [17, 2] = predict toy_model ([[4, 17, 9, 2]] ! 0)
   \<and> reach toy_model 5 [[4, 17, 9, 2]] (init [[4, 17, 9, 2]])
   \<and> in_slice (s_n_beams (init [[4, 17, 9, 2]])) 0 0
   \<and> predict toy_model (s_xs (init [[4, 17, 9, 2]]) ! 0) = predict toy_model ([[4, 17, 9, 2]] ! 0)"
proof -
  have ev: "get_rawr toy_model [[4, 17, 9, 2]] 5 = Some ([[[17, 2]]], [[[0, 2]]])"
    by code_simp
  have sl: "in_slice (s_n_beams (init [[4, 17, 9, 2]])) 0 0"
    by (simp add: init_def in_slice_def)
  note t = prediction_preserved [of toy_model "[[4, 17, 9, 2]]" 5]
  from t ev have "predict toy_model [17, 2] = predict toy_model ([[4, 17, 9, 2]] ! 0)"
    by auto
  moreover from t reach_init [of toy_model 5 "[[4, 17, 9, 2]]"] sl
  have "predict toy_model (s_xs (init [[4, 17, 9, 2]]) ! 0)
        = predict toy_model ([[4, 17, 9, 2]] ! 0)"
    by blast
  ultimately show ?thesis using ev sl reach_init by blast
qed

text \<open>
  C2, as the specification states it: the pooled candidates of an example are sorted by
  ascending saliency and the \<open>max_beam_size\<close> lowest of the pool are expanded. This does not
  hold. The key of the sort in line 59 is the negated score: in the second round of the
  search on \<open>two_examples\<close> with \<open>max_beam_size = 2\<close> the pool of the first example holds the
  scores 4, 17, 9, 17, and the children are made from the two candidates of score 17, where
  the selection of the specification (\<open>select_lowest\<close>) takes those of scores 4 and 9.
\<close>

theorem pool_ascending_counterexample:
  "pool (get_onehot_grad toy_model (s_xs after_round_1))
        (map (\<lambda>x. argsort (butlast x)) (get_onehot_grad toy_model (s_xs after_round_1)))
        2 0 (s_n_beams after_round_1 ! 0)
     = Some [(4, 0, 0), (17, 0, 1), (9, 1, 1), (17, 1, 0)]
   \<and> select 2 [(4, 0, 0), (17, 0, 1), (9, 1, 1), (17, 1, 0)] = [(0, 1), (1, 0)]
   \<and> select_lowest 2 [(4, 0, 0), (17, 0, 1), (9, 1, 1), (17, 1, 0)] = [(0, 0), (1, 1)]
   \<and> remove_one toy_model (s_xs after_round_1) (s_n_beams after_round_1)
        (s_indices after_round_1) (s_removed_indices after_round_1) 2
      = Some ([[4, 2], [9, 2]], [2, 0], [[0, 3], [2, 3]], [[2, 1], [0, 1]])"
proof -
  have "pool (get_onehot_grad toy_model (s_xs after_round_1))
        (map (\<lambda>x. argsort (butlast x)) (get_onehot_grad toy_model (s_xs after_round_1)))
        2 0 (s_n_beams after_round_1 ! 0)
     = Some [(4, 0, 0), (17, 0, 1), (9, 1, 1), (17, 1, 0)]"
    by code_simp
  moreover have "select 2 [(4, 0, 0), (17, 0, 1), (9, 1, 1), (17, 1, 0)] = [(0, 1), (1, 0)]"
    by code_simp
  moreover have
    "select_lowest 2 [(4, 0, 0), (17, 0, 1), (9, 1, 1), (17, 1, 0)] = [(0, 0), (1, 1)]"
    by code_simp
  moreover have "remove_one toy_model (s_xs after_round_1) (s_n_beams after_round_1)
        (s_indices after_round_1) (s_removed_indices after_round_1) 2
      = Some ([[4, 2], [9, 2]], [2, 0], [[0, 3], [2, 3]], [[2, 1], [0, 1]])"
    by code_simp
  ultimately show ?thesis by blast
qed

text \<open>
  C2, amended. In \<open>remove_one\<close>, for every example with at least one live beam, every beam
  of the example contributes its \<open>max_beam_size\<close> lowest-saliency positions other than the
  last one, in ascending order of saliency; the candidates pooled across the beams of the
  example are sorted by descending saliency (stably, by the negated score), and the first
  \<open>max_beam_size\<close> of that order, the highest-saliency candidates of the pool, are the ones
  expanded into the child beams of the example, in that order.
\<close>

theorem pool_sorted_descending:
  assumes ro: "remove_one m xs nbs ind rmd k = Some (nx, nn, ni, nr)"
    and e: "e < length nbs" and live: "nbs ! e \<noteq> 0"
  shows "\<exists>P S.
      pool (get_onehot_grad m xs) (map (\<lambda>x. argsort (butlast x)) (get_onehot_grad m xs)) k
           (slice_start nbs e) (nbs ! e) = Some P
    \<and> P = concat (map (\<lambda>i. map (\<lambda>j. (saliency m (xs ! i) j, (i, j)))
                             (candidates m k (xs ! i)))
                   [slice_start nbs e..<slice_start nbs e + nbs ! e])
    \<and> (\<forall>i. in_slice nbs e i \<longrightarrow>
          take k (map (\<lambda>x. argsort (butlast x)) (get_onehot_grad m xs) ! i)
            = candidates m k (xs ! i)
        \<and> set (candidates m k (xs ! i)) \<subseteq> {0..<length (xs ! i) - 1}
        \<and> distinct (candidates m k (xs ! i))
        \<and> length (candidates m k (xs ! i)) = min k (length (xs ! i) - 1)
        \<and> sorted (map (saliency m (xs ! i)) (candidates m k (xs ! i)))
        \<and> (\<forall>j\<in>set (candidates m k (xs ! i)). \<forall>j'<length (xs ! i) - 1.
              j' \<notin> set (candidates m k (xs ! i))
              \<longrightarrow> saliency m (xs ! i) j \<le> saliency m (xs ! i) j'))
    \<and> S = sort_key (\<lambda>c. - fst c) P
    \<and> sorted (map (\<lambda>c. - fst c) S)
    \<and> select k P = map snd (take k S)
    \<and> (\<forall>c\<in>set (take k S). \<forall>c'\<in>set (drop k S). fst c' \<le> fst c)
    \<and> nn ! e = length (select k P)
    \<and> (\<forall>t<nn ! e. child xs ind rmd (select k P ! t)
          = Some (nx ! (slice_start nn e + t), ni ! (slice_start nn e + t),
                  nr ! (slice_start nn e + t)))"
proof -
  let ?P = "example_pool m k xs nbs e"
  from remove_one_spec [OF ro] e have ex: "expanded m k xs nbs ind rmd nx nn ni nr e"
    by simp
  with live have fit: "slice_start nbs e + nbs ! e \<le> length xs"
    by (simp add: expanded_def)
  then have 1: "pool (get_onehot_grad m xs)
      (map (\<lambda>x. argsort (butlast x)) (get_onehot_grad m xs)) k (slice_start nbs e) (nbs ! e)
      = Some ?P"
    by (simp add: pool_eq_Some)
  have 2: "?P = concat (map (\<lambda>i. map (\<lambda>j. (saliency m (xs ! i) j, (i, j)))
                             (candidates m k (xs ! i)))
                   [slice_start nbs e..<slice_start nbs e + nbs ! e])"
    by (simp add: example_pool_def)
  have 3: "take k (map (\<lambda>x. argsort (butlast x)) (get_onehot_grad m xs) ! i)
            = candidates m k (xs ! i)
        \<and> set (candidates m k (xs ! i)) \<subseteq> {0..<length (xs ! i) - 1}
        \<and> distinct (candidates m k (xs ! i))
        \<and> length (candidates m k (xs ! i)) = min k (length (xs ! i) - 1)
        \<and> sorted (map (saliency m (xs ! i)) (candidates m k (xs ! i)))
        \<and> (\<forall>j\<in>set (candidates m k (xs ! i)). \<forall>j'<length (xs ! i) - 1.
              j' \<notin> set (candidates m k (xs ! i))
              \<longrightarrow> saliency m (xs ! i) j \<le> saliency m (xs ! i) j')"
    if "in_slice nbs e i" for i
  proof -
    from that fit have "i < length xs" by (simp add: in_slice_def)
    from take_order_nth [OF this] candidates_lowest [of m k "xs ! i"] show ?thesis
      by simp
  qed
  note 4 = select_descending [of ?P k]
  from ex have 5: "nn ! e = length (select k ?P)"
    "\<forall>t<nn ! e. child xs ind rmd (select k ?P ! t)
          = Some (nx ! (slice_start nn e + t), ni ! (slice_start nn e + t),
                  nr ! (slice_start nn e + t))"
    by (simp_all add: expanded_def)
  from 1 2 3 4 5 show ?thesis by blast
qed


theorem pool_sorted_descending_witness:
  "remove_one toy_model (s_xs after_round_1) (s_n_beams after_round_1)
        (s_indices after_round_1) (s_removed_indices after_round_1) 2
      = Some ([[4, 2], [9, 2]], [2, 0], [[0, 3], [2, 3]], [[2, 1], [0, 1]])
   \<and> 0 < length (s_n_beams after_round_1)
   \<and> s_n_beams after_round_1 ! 0 \<noteq> 0
   \<and> pool (get_onehot_grad toy_model (s_xs after_round_1))
        (map (\<lambda>x. argsort (butlast x)) (get_onehot_grad toy_model (s_xs after_round_1)))
        2 (slice_start (s_n_beams after_round_1) 0) (s_n_beams after_round_1 ! 0)
     = Some [(4, 0, 0), (17, 0, 1), (9, 1, 1), (17, 1, 0)]
   \<and> [2, 0] ! 0 = length (select 2 [(4, 0, 0), (17, 0, 1), (9, 1, 1), (17, 1, 0)])
   \<and> select 2 [(4, 0, 0), (17, 0, 1), (9, 1, 1), (17, 1, 0)] = [(0, 1), (1, 0)]"
proof -
  have ro: "remove_one toy_model (s_xs after_round_1) (s_n_beams after_round_1)
        (s_indices after_round_1) (s_removed_indices after_round_1) 2
      = Some ([[4, 2], [9, 2]], [2, 0], [[0, 3], [2, 3]], [[2, 1], [0, 1]])"
    by code_simp
  have e: "0 < length (s_n_beams after_round_1)" by (simp add: after_round_1_def)
  have live: "s_n_beams after_round_1 ! 0 \<noteq> 0" by (simp add: after_round_1_def)
  have pl: "pool (get_onehot_grad toy_model (s_xs after_round_1))
        (map (\<lambda>x. argsort (butlast x)) (get_onehot_grad toy_model (s_xs after_round_1)))
        2 (slice_start (s_n_beams after_round_1) 0) (s_n_beams after_round_1 ! 0)
     = Some [(4, 0, 0), (17, 0, 1), (9, 1, 1), (17, 1, 0)]"
    by code_simp
  have sel: "select 2 [(4, 0, 0), (17, 0, 1), (9, 1, 1), (17, 1, 0)] = [(0, 1), (1, 0)]"
    by code_simp
  from pool_sorted_descending [OF ro e live] pl
  have "[2, 0] ! 0 = length (select 2 [(4, 0, 0), (17, 0, 1), (9, 1, 1), (17, 1, 0)])"
    by auto
  with ro e live pl sel show ?thesis by blast
qed

text \<open>
  C3. After the bookkeeping of every round and in the result of \<open>get_rawr\<close>, the sequences
  recorded for an example all have one length, the recorded best length of the example; a
  candidate that keeps the prediction and is strictly shorter than that length replaces the
  whole recorded set.
\<close>

theorem recorded_lengths_equal:
  "(\<exists>fx fr. get_rawr m xs k = Some (fx, fr)
      \<and> (\<forall>e<length xs. \<forall>x\<in>set (fx ! e). \<forall>y\<in>set (fx ! e). length x = length y))
   \<and> (\<forall>st st' d. reach m k xs st
        \<longrightarrow> round m k (length xs) (map (predict m) xs) st = Some (st', d)
        \<longrightarrow> (\<forall>e<length xs. \<forall>x\<in>set (final_xs st' ! e). length x = final_length st' ! e))
   \<and> (\<forall>ys_0 cs rmd e i b b'. visit ys_0 cs (map (predict m) cs) rmd e i b = Some b'
        \<longrightarrow> predict m (cs ! i) = ys_0 ! e \<longrightarrow> length (cs ! i) < b_final_length b ! e
        \<longrightarrow> b_final_xs b' ! e = [cs ! i] \<and> b_final_removed b' ! e = [rmd ! i]
            \<and> b_final_length b' ! e = length (cs ! i))"
proof -
  have len: "length x = fl ! e"
    if "finals_ok m xs fx fr fl" "e < length xs" "x \<in> set (fx ! e)" for fx fr fl e x
    using finals_okD(5) [OF that(1,2)] that(3) by (auto simp: in_set_conv_nth)
  from get_rawr_finals [of m xs k] obtain fx fr fl where
    r: "get_rawr m xs k = Some (fx, fr)" and ok: "finals_ok m xs fx fr fl" by blast
  have 1: "\<exists>fx fr. get_rawr m xs k = Some (fx, fr)
      \<and> (\<forall>e<length xs. \<forall>x\<in>set (fx ! e). \<forall>y\<in>set (fx ! e). length x = length y)"
    using r len [OF ok] by force
  have 2: "length x = final_length st' ! e"
    if "reach m k xs st" "round m k (length xs) (map (predict m) xs) st = Some (st', d)"
      "e < length xs" "x \<in> set (final_xs st' ! e)" for st st' d e x
  proof -
    from round_inv(2) [OF reach_inv [OF that(1)] that(2)]
    have "finals_ok m xs (final_xs st') (final_removed st') (final_length st')"
      by (simp add: post_def)
    from len [OF this that(3,4)] show ?thesis .
  qed
  have 3: "b_final_xs b' ! e = [cs ! i] \<and> b_final_removed b' ! e = [rmd ! i]
            \<and> b_final_length b' ! e = length (cs ! i)"
    if "visit ys_0 cs (map (predict m) cs) rmd e i b = Some b'"
      "predict m (cs ! i) = ys_0 ! e" "length (cs ! i) < b_final_length b ! e"
    for ys_0 cs rmd e i b b'
    using visit_record(1) [OF that(1,2)] that(3) by (simp add: record_into_def)
  from 1 2 3 show ?thesis by blast
qed


theorem recorded_lengths_equal_witness:
  "get_rawr toy_model [[4, 17, 9, 2]] 2 = Some ([[[4, 17, 2], [17, 9, 2]]], [[[2], [0]]])
   \<and> length [4, 17, 2 :: int] = length [17, 9, 2 :: int]
   \<and> reach toy_model 2 [[4, 17, 9, 2]] (init [[4, 17, 9, 2]])
   \<and> round toy_model 2 (length [[4, 17, 9, 2 :: int]]) (map (predict toy_model) [[4, 17, 9, 2]])
        (init [[4, 17, 9, 2]])
      = Some (\<lparr>s_xs = [[4, 17, 2], [17, 9, 2]], s_n_beams = [2],
               s_indices = [[0, 1, 3], [1, 2, 3]], s_removed_indices = [[2], [0]],
               final_xs = [[[4, 17, 2], [17, 9, 2]]], final_removed = [[[2], [0]]],
               final_length = [3]\<rparr>, False)
   \<and> length [17, 9, 2 :: int] = [3] ! 0
   \<and> visit [1] [[4, 17, 2], [17, 9, 2]] (map (predict toy_model) [[4, 17, 2], [17, 9, 2]])
        [[2], [0]] 0 0 (book0 (init [[4, 17, 9, 2]]))
      = Some \<lparr>b_final_xs = [[[4, 17, 2]]], b_final_removed = [[[2]]], b_final_length = [3],
               b_new_n_beams = [], b_start = 0, remained_indices = [0], cnt = 1\<rparr>
   \<and> predict toy_model ([[4, 17, 2], [17, 9, 2]] ! 0) = [1] ! 0
   \<and> length ([[4, 17, 2], [17, 9, 2 :: int]] ! 0) < b_final_length (book0 (init [[4, 17, 9, 2]])) ! 0"
proof -
  have ev: "get_rawr toy_model [[4, 17, 9, 2]] 2
      = Some ([[[4, 17, 2], [17, 9, 2]]], [[[2], [0]]])"
    by code_simp
  have rd: "round toy_model 2 (length [[4, 17, 9, 2 :: int]])
        (map (predict toy_model) [[4, 17, 9, 2]]) (init [[4, 17, 9, 2]])
      = Some (\<lparr>s_xs = [[4, 17, 2], [17, 9, 2]], s_n_beams = [2],
               s_indices = [[0, 1, 3], [1, 2, 3]], s_removed_indices = [[2], [0]],
               final_xs = [[[4, 17, 2], [17, 9, 2]]], final_removed = [[[2], [0]]],
               final_length = [3]\<rparr>, False)"
    by code_simp
  have vs: "visit [1] [[4, 17, 2], [17, 9, 2]]
        (map (predict toy_model) [[4, 17, 2], [17, 9, 2]]) [[2], [0]] 0 0
        (book0 (init [[4, 17, 9, 2]]))
      = Some \<lparr>b_final_xs = [[[4, 17, 2]]], b_final_removed = [[[2]]], b_final_length = [3],
               b_new_n_beams = [], b_start = 0, remained_indices = [0], cnt = 1\<rparr>"
    by code_simp
  have pr: "predict toy_model ([[4, 17, 2], [17, 9, 2]] ! 0) = [1] ! 0"
    by (simp add: toy_model_def)
  have ln: "length ([[4, 17, 2], [17, 9, 2 :: int]] ! 0)
      < b_final_length (book0 (init [[4, 17, 9, 2]])) ! 0"
    by (simp add: init_def)
  show ?thesis
    using recorded_lengths_equal [of toy_model "[[4, 17, 9, 2]]" 2] ev rd vs pr ln reach_init
    by simp
qed

text \<open>
  C4. The sequences in the result of \<open>get_rawr\<close> for one example are pairwise different: a
  candidate that keeps the prediction and has the recorded best length is appended only when
  the recorded set does not hold its token sequence yet.
\<close>

theorem recorded_distinct:
  "(\<exists>fx fr. get_rawr m xs k = Some (fx, fr) \<and> (\<forall>e<length xs. distinct (fx ! e)))
   \<and> (\<forall>ys_0 cs rmd e i b b'. visit ys_0 cs (map (predict m) cs) rmd e i b = Some b'
        \<longrightarrow> predict m (cs ! i) = ys_0 ! e \<longrightarrow> length (cs ! i) = b_final_length b ! e
        \<longrightarrow> b_final_xs b' ! e =
              (if cs ! i \<in> set (b_final_xs b ! e) then b_final_xs b ! e
               else b_final_xs b ! e @ [cs ! i]))"
proof -
  from get_rawr_finals [of m xs k] obtain fx fr fl where
    r: "get_rawr m xs k = Some (fx, fr)" and ok: "finals_ok m xs fx fr fl" by blast
  have 1: "\<exists>fx fr. get_rawr m xs k = Some (fx, fr) \<and> (\<forall>e<length xs. distinct (fx ! e))"
    using r finals_okD(3) [OF ok] by blast
  have 2: "b_final_xs b' ! e =
              (if cs ! i \<in> set (b_final_xs b ! e) then b_final_xs b ! e
               else b_final_xs b ! e @ [cs ! i])"
    if "visit ys_0 cs (map (predict m) cs) rmd e i b = Some b'"
      "predict m (cs ! i) = ys_0 ! e" "length (cs ! i) = b_final_length b ! e"
    for ys_0 cs rmd e i b b'
    using visit_record(1) [OF that(1,2)] that(3)
    by (auto simp: record_into_def split: if_splits)
  from 1 2 show ?thesis by blast
qed

theorem recorded_distinct_witness:
  "get_rawr toy_model [[4, 17, 9, 2]] 2 = Some ([[[4, 17, 2], [17, 9, 2]]], [[[2], [0]]])
   \<and> distinct ([[[4, 17, 2], [17, 9, 2 :: int]]] ! 0)
   \<and> visit [1] [[4, 17, 2], [17, 9, 2]] (map (predict toy_model) [[4, 17, 2], [17, 9, 2]])
        [[2], [0]] 0 1
        \<lparr>b_final_xs = [[[4, 17, 2]]], b_final_removed = [[[2]]], b_final_length = [3],
         b_new_n_beams = [], b_start = 0, remained_indices = [0], cnt = 1\<rparr>
      = Some \<lparr>b_final_xs = [[[4, 17, 2], [17, 9, 2]]], b_final_removed = [[[2], [0]]],
               b_final_length = [3], b_new_n_beams = [], b_start = 0,
               remained_indices = [0, 1], cnt = 2\<rparr>
   \<and> predict toy_model ([[4, 17, 2], [17, 9, 2]] ! 1) = [1] ! 0
   \<and> length ([[4, 17, 2], [17, 9, 2 :: int]] ! 1) = [3] ! 0
   \<and> [[[4, 17, 2], [17, 9, 2 :: int]]] ! 0 = [[[4, 17, 2]]] ! 0 @ [[[4, 17, 2], [17, 9, 2]] ! 1]"
proof -
  have ev: "get_rawr toy_model [[4, 17, 9, 2]] 2
      = Some ([[[4, 17, 2], [17, 9, 2]]], [[[2], [0]]])"
    by code_simp
  have vs: "visit [1] [[4, 17, 2], [17, 9, 2]]
        (map (predict toy_model) [[4, 17, 2], [17, 9, 2]]) [[2], [0]] 0 1
        \<lparr>b_final_xs = [[[4, 17, 2]]], b_final_removed = [[[2]]], b_final_length = [3],
         b_new_n_beams = [], b_start = 0, remained_indices = [0], cnt = 1\<rparr>
      = Some \<lparr>b_final_xs = [[[4, 17, 2], [17, 9, 2]]], b_final_removed = [[[2], [0]]],
               b_final_length = [3], b_new_n_beams = [], b_start = 0,
               remained_indices = [0, 1], cnt = 2\<rparr>"
    by code_simp
  have pr: "predict toy_model ([[4, 17, 2], [17, 9, 2]] ! 1) = [1] ! 0"
    by (simp add: toy_model_def)
  show ?thesis
    using recorded_distinct [of toy_model "[[4, 17, 9, 2]]" 2] ev vs pr by simp
qed

text \<open>
  C5, as the specification states it: every recorded sequence is a strict subsequence of
  the original. This does not hold. The search seeds the result of every example with the
  original sequence itself, and the seed stays when no candidate keeps the prediction, as
  for the sentence \<open>[17, 2]\<close> and the classifier \<open>toy_model\<close>.
\<close>

theorem recorded_strict_subseq_counterexample:
  "get_rawr toy_model [[17, 2]] 5 = Some ([[[17, 2]]], [[[]]])
   \<and> \<not> strict_subseq ([[[17, 2 :: int]]] ! 0 ! 0) ([[17, 2]] ! 0)"
proof -
  have "get_rawr toy_model [[17, 2]] 5 = Some ([[[17, 2]]], [[[]]])"
    by code_simp
  then show ?thesis by (simp add: strict_subseq_def)
qed

text \<open>
  C5, amended. Every recorded sequence is a subsequence of the original and at most as
  long; it is a strict subsequence exactly when it is shorter than the original, and
  otherwise it is the original. When the original is not empty, the recorded sequence ends
  with the original's last token: the last position is never a candidate for removal.
\<close>

theorem recorded_subseq:
  "(\<exists>fx fr. get_rawr m xs k = Some (fx, fr)
      \<and> (\<forall>e<length xs. \<forall>x\<in>set (fx ! e).
            length x \<le> length (xs ! e) \<and> subseq x (xs ! e)
          \<and> (strict_subseq x (xs ! e) \<longleftrightarrow> length x < length (xs ! e))
          \<and> (xs ! e \<noteq> [] \<longrightarrow> x \<noteq> [] \<and> last x = last (xs ! e))))
   \<and> (\<forall>x j. j \<in> set (candidates m k x) \<longrightarrow> j < length x - 1)"
proof -
  from get_rawr_finals [of m xs k] obtain fx fr fl where
    r: "get_rawr m xs k = Some (fx, fr)" and ok: "finals_ok m xs fx fr fl" by blast
  have "length x \<le> length (xs ! e) \<and> subseq x (xs ! e)
          \<and> (strict_subseq x (xs ! e) \<longleftrightarrow> length x < length (xs ! e))
          \<and> (xs ! e \<noteq> [] \<longrightarrow> x \<noteq> [] \<and> last x = last (xs ! e))"
    if e: "e < length xs" and x: "x \<in> set (fx ! e)" for e x
  proof -
    from x obtain t where "t < length (fx ! e)" "x = fx ! e ! t"
      by (auto simp: in_set_conv_nth)
    with finals_okD(4) [OF ok e] have red: "reduction (xs ! e) x (fr ! e ! t)" by simp
    note sub = reduction_subseq [OF red]
    from sub have le: "length x \<le> length (xs ! e)" by (rule list_emb_length)
    have "x = xs ! e \<longleftrightarrow> length x = length (xs ! e)"
      using subseq_same_length [OF sub] by auto
    with sub le have "strict_subseq x (xs ! e) \<longleftrightarrow> length x < length (xs ! e)"
      unfolding strict_subseq_def by linarith
    with sub le reduction_last [OF red] show ?thesis by simp
  qed
  with r candidates_bound show ?thesis by blast
qed

theorem recorded_subseq_witness:
  "get_rawr toy_model [[4, 17, 9, 2]] 5 = Some ([[[17, 2]]], [[[0, 2]]])
   \<and> subseq [17, 2] ([[4, 17, 9, 2 :: int]] ! 0)
   \<and> strict_subseq [17, 2] ([[4, 17, 9, 2 :: int]] ! 0)
   \<and> last [17, 2] = last ([[4, 17, 9, 2 :: int]] ! 0)
   \<and> candidates toy_model 5 [4, 17, 9, 2] = [0, 2, 1]
   \<and> 1 < length [4, 17, 9, 2 :: int] - 1"
proof -
  have ev: "get_rawr toy_model [[4, 17, 9, 2]] 5 = Some ([[[17, 2]]], [[[0, 2]]])"
    by code_simp
  have cd: "candidates toy_model 5 [4, 17, 9, 2] = [0, 2, 1]"
    by code_simp
  note t = recorded_subseq [of toy_model "[[4, 17, 9, 2]]" 5]
  from t ev have "subseq [17, 2] ([[4, 17, 9, 2 :: int]] ! 0)
      \<and> strict_subseq [17, 2] ([[4, 17, 9, 2 :: int]] ! 0)
      \<and> last [17, 2] = last ([[4, 17, 9, 2 :: int]] ! 0)"
    by auto
  moreover from t cd have "1 < length [4, 17, 9, 2 :: int] - 1"
    by (metis list.set_intros(1,2))
  ultimately show ?thesis using ev cd by blast
qed

text \<open>
  C6. For every recorded reduction, the removed positions and the positions of the original
  that remain are disjoint and make up all positions of the original, and the recorded
  sequence holds the original's tokens at the remaining positions, in their order. The index
  list of every beam at the head of the loop holds exactly these remaining positions.
\<close>

theorem removed_positions_partition:
  "(\<exists>fx fr. get_rawr m xs k = Some (fx, fr)
      \<and> (\<forall>e<length xs. \<forall>t<length (fx ! e).
            distinct (fr ! e ! t)
          \<and> set (fr ! e ! t) \<inter> set (kept (xs ! e) (fr ! e ! t)) = {}
          \<and> set (fr ! e ! t) \<union> set (kept (xs ! e) (fr ! e ! t)) = {0..<length (xs ! e)}
          \<and> fx ! e ! t = map ((!) (xs ! e)) (kept (xs ! e) (fr ! e ! t))))
   \<and> (\<forall>st. reach m k xs st \<longrightarrow>
        (\<forall>e<length xs. \<forall>i. in_slice (s_n_beams st) e i \<longrightarrow>
            sorted_wrt (<) (s_indices st ! i)
          \<and> set (s_removed_indices st ! i) \<inter> set (s_indices st ! i) = {}
          \<and> set (s_removed_indices st ! i) \<union> set (s_indices st ! i) = {0..<length (xs ! e)}
          \<and> s_xs st ! i = map ((!) (xs ! e)) (s_indices st ! i)))"
proof -
  have red: "distinct r \<and> set r \<inter> set (kept x0 r) = {}
      \<and> set r \<union> set (kept x0 r) = {0..<length x0} \<and> x = map ((!) x0) (kept x0 r)"
    if "reduction x0 x r" for x0 x r
    using that reduction_partition [OF that] by (simp add: reduction_def)
  from get_rawr_finals [of m xs k] obtain fx fr fl where
    r: "get_rawr m xs k = Some (fx, fr)" and ok: "finals_ok m xs fx fr fl" by blast
  have 1: "\<exists>fx fr. get_rawr m xs k = Some (fx, fr)
      \<and> (\<forall>e<length xs. \<forall>t<length (fx ! e).
            distinct (fr ! e ! t)
          \<and> set (fr ! e ! t) \<inter> set (kept (xs ! e) (fr ! e ! t)) = {}
          \<and> set (fr ! e ! t) \<union> set (kept (xs ! e) (fr ! e ! t)) = {0..<length (xs ! e)}
          \<and> fx ! e ! t = map ((!) (xs ! e)) (kept (xs ! e) (fr ! e ! t)))"
    using r red [OF finals_okD(4) [OF ok]] by blast
  have 2: "sorted_wrt (<) (s_indices st ! i)
          \<and> set (s_removed_indices st ! i) \<inter> set (s_indices st ! i) = {}
          \<and> set (s_removed_indices st ! i) \<union> set (s_indices st ! i) = {0..<length (xs ! e)}
          \<and> s_xs st ! i = map ((!) (xs ! e)) (s_indices st ! i)"
    if "reach m k xs st" "e < length xs" "in_slice (s_n_beams st) e i" for st e i
  proof -
    from reach_inv [OF that(1)] that(2,3)
    have "beam_ok (xs ! e) (s_xs st ! i) (s_indices st ! i) (s_removed_indices st ! i)"
      by (simp add: inv_def post_def beams_ok_def)
    then have "s_indices st ! i = kept (xs ! e) (s_removed_indices st ! i)"
      and "reduction (xs ! e) (s_xs st ! i) (s_removed_indices st ! i)"
      by (simp_all add: beam_ok_def)
    with red [OF this(2)] kept_sorted [of "xs ! e" "s_removed_indices st ! i"]
    show ?thesis by simp
  qed
  from 1 2 show ?thesis by blast
qed

theorem removed_positions_partition_witness:
  "get_rawr toy_model [[4, 17, 9, 2]] 5 = Some ([[[17, 2]]], [[[0, 2]]])
   \<and> set ([[[0, 2 :: nat]]] ! 0 ! 0) \<union> set (kept ([[4, 17, 9, 2 :: int]] ! 0) ([[[0, 2]]] ! 0 ! 0))
       = {0..<length ([[4, 17, 9, 2 :: int]] ! 0)}
   \<and> kept [4, 17, 9, 2 :: int] [0, 2] = [1, 3]
   \<and> [[[17, 2 :: int]]] ! 0 ! 0
       = map ((!) ([[4, 17, 9, 2]] ! 0)) (kept ([[4, 17, 9, 2 :: int]] ! 0) ([[[0, 2]]] ! 0 ! 0))
   \<and> reach toy_model 5 [[4, 17, 9, 2]] (init [[4, 17, 9, 2]])
   \<and> in_slice (s_n_beams (init [[4, 17, 9, 2]])) 0 0
   \<and> s_xs (init [[4, 17, 9, 2]]) ! 0
       = map ((!) ([[4, 17, 9, 2]] ! 0)) (s_indices (init [[4, 17, 9, 2]]) ! 0)"
proof -
  have ev: "get_rawr toy_model [[4, 17, 9, 2]] 5 = Some ([[[17, 2]]], [[[0, 2]]])"
    by code_simp
  have kp: "kept [4, 17, 9, 2 :: int] [0, 2] = [1, 3]"
    by code_simp
  have sl: "in_slice (s_n_beams (init [[4, 17, 9, 2]])) 0 0"
    by (simp add: init_def in_slice_def)
  note t = removed_positions_partition [of toy_model "[[4, 17, 9, 2]]" 5]
  from t ev have a: "set ([[[0, 2 :: nat]]] ! 0 ! 0)
       \<union> set (kept ([[4, 17, 9, 2 :: int]] ! 0) ([[[0, 2]]] ! 0 ! 0))
       = {0..<length ([[4, 17, 9, 2 :: int]] ! 0)}"
    and b: "[[[17, 2 :: int]]] ! 0 ! 0
       = map ((!) ([[4, 17, 9, 2]] ! 0)) (kept ([[4, 17, 9, 2 :: int]] ! 0) ([[[0, 2]]] ! 0 ! 0))"
    by auto
  from t reach_init [of toy_model 5 "[[4, 17, 9, 2]]"] sl
  have c: "s_xs (init [[4, 17, 9, 2]]) ! 0
       = map ((!) ([[4, 17, 9, 2]] ! 0)) (s_indices (init [[4, 17, 9, 2]]) ! 0)"
    by (simp add: init_def)
  from ev a kp b reach_init sl c show ?thesis by blast
qed

text \<open>
  C7. When none of the candidates that the first round makes of an example keeps the
  prediction (so in particular when every removal of one token changes it), no reduction of
  that example is ever found, and \<open>get_rawr\<close> returns for it the one result it was seeded
  with: the original sequence, with no position removed.
\<close>

theorem unreduced_example_keeps_original:
  assumes e: "e < length xs"
    and nm: "\<forall>j\<in>set (candidates m k (xs ! e)).
               predict m (take j (xs ! e) @ drop (Suc j) (xs ! e)) \<noteq> predict m (xs ! e)"
  shows "\<exists>fx fr. get_rawr m xs k = Some (fx, fr) \<and> fx ! e = [xs ! e] \<and> fr ! e = [[]]
           \<and> final_xs (init xs) ! e = [xs ! e] \<and> final_removed (init xs) ! e = [[]]
           \<and> final_length (init xs) ! e = length (xs ! e)"
proof -
  let ?P = "\<lambda>st. (st = init xs \<or> s_n_beams st ! e = 0)
      \<and> final_xs st ! e = [xs ! e] \<and> final_removed st ! e = [[]]"
  have seed: "final_xs (init xs) ! e = [xs ! e]" "final_removed (init xs) ! e = [[]]"
    "final_length (init xs) ! e = length (xs ! e)"
    using e by (simp_all add: init_def)
  have step: "final_xs st' ! e = [xs ! e] \<and> final_removed st' ! e = [[]]
      \<and> (\<not> d \<longrightarrow> s_n_beams st' ! e = 0)"
    if P: "?P st" and r: "round m k (length xs) (map (predict m) xs) st = Some (st', d)"
    for st st' d
  proof -
    have "predict m (take j (s_xs st ! i) @ drop (Suc j) (s_xs st ! i))
        \<noteq> map (predict m) xs ! e"
      if i: "in_slice (s_n_beams st) e i" and j: "j \<in> set (candidates m k (s_xs st ! i))"
      for i j
    proof (cases "st = init xs")
      case True
      with i e have "i = e" by (simp add: init_def in_slice_ones)
      with True j nm e show ?thesis by (simp add: init_def)
    next
      case False
      with P i show ?thesis by (auto simp: in_slice_def)
    qed
    from round_no_match [OF r e this] P show ?thesis by simp
  qed
  have reachP: "?P st" if "reach m k xs st" for st
    using that
  proof (induction rule: reach.induct)
    case reach_init
    show ?case using seed by simp
  next
    case (reach_round st st')
    from step [OF reach_round.IH reach_round.hyps(2)] show ?case by simp
  qed
  from get_rawr_result [of m k xs] obtain st1 st' where
    "reach m k xs st1" "round m k (length xs) (map (predict m) xs) st1 = Some (st', True)"
    "get_rawr m xs k = Some (final_xs st', final_removed st')"
    by blast
  with step [OF reachP [OF this(1)] this(2)] seed show ?thesis by simp
qed

theorem unreduced_example_keeps_original_witness:
  "0 < length [[17, 2 :: int]]
   \<and> candidates toy_model 5 ([[17, 2]] ! 0) = [0]
   \<and> predict toy_model (take 0 ([[17, 2]] ! 0) @ drop (Suc 0) ([[17, 2]] ! 0))
       \<noteq> predict toy_model ([[17, 2]] ! 0)
   \<and> get_rawr toy_model [[17, 2]] 5 = Some ([[[17, 2]]], [[[]]])"
proof -
  have cd: "candidates toy_model 5 ([[17, 2]] ! 0) = [0]"
    by code_simp
  have pr: "predict toy_model (take 0 ([[17, 2]] ! 0) @ drop (Suc 0) ([[17, 2]] ! 0))
       \<noteq> predict toy_model ([[17, 2]] ! 0)"
    by (simp add: toy_model_def)
  have len: "0 < length [[17, 2 :: int]]" by simp
  have nm: "\<forall>j\<in>set (candidates toy_model 5 ([[17, 2]] ! 0)).
      predict toy_model (take j ([[17, 2]] ! 0) @ drop (Suc j) ([[17, 2]] ! 0))
        \<noteq> predict toy_model ([[17, 2]] ! 0)"
    unfolding cd using pr by simp
  from unreduced_example_keeps_original [OF len nm] obtain fx fr where
    "get_rawr toy_model [[17, 2]] 5 = Some (fx, fr)" "fx ! 0 = [[[17, 2]] ! 0]"
    "fr ! 0 = [[]]"
    by blast
  moreover have "get_rawr toy_model [[17, 2]] 5 = Some ([[[17, 2]]], [[[]]])"
    by code_simp
  ultimately show ?thesis using cd pr len by blast
qed

text \<open>
  C8, as the specification states it: the search runs at most \<open>L\<^sub>0 - 1\<close> rounds, for the
  longest original length \<open>L\<^sub>0\<close> of the batch. This does not hold. The body of the loop runs before the loop tests
  whether a beam is left, so on a batch whose only sequence is the terminator the search
  makes one round, not zero.
\<close>

theorem rounds_bound_counterexample:
  "get_rawr_rounds toy_model [[2]] 5 = 1 \<and> longest [[2 :: int]] - 1 = 0"
proof -
  have "get_rawr_rounds toy_model [[2]] 5 = 1" by code_simp
  then show ?thesis by (simp add: longest_def)
qed

text \<open>
  C8, amended. On every batch the search returns, without an exception, after at most
  \<open>max 1 (L\<^sub>0 - 1)\<close> rounds, for the longest original length \<open>L\<^sub>0\<close> of the batch. Every beam
  that survives a round has at least two tokens and is one token shorter than a beam of
  the same example before the round, of which it is a subsequence. A candidate of length 1
  that keeps the prediction is not kept as a beam, and it is in the recorded set of its
  example after its visit.
\<close>

theorem search_terminates:
  "(\<exists>r. get_rawr m xs k = Some r)
   \<and> get_rawr_rounds m xs k \<le> max 1 (longest xs - 1)
   \<and> (\<forall>st st'. reach m k xs st
        \<longrightarrow> round m k (length xs) (map (predict m) xs) st = Some (st', False)
        \<longrightarrow> (\<forall>e<length xs. \<forall>t. in_slice (s_n_beams st') e t
              \<longrightarrow> 2 \<le> length (s_xs st' ! t)
                \<and> (\<exists>i. in_slice (s_n_beams st) e i
                      \<and> length (s_xs st ! i) = Suc (length (s_xs st' ! t))
                      \<and> subseq (s_xs st' ! t) (s_xs st ! i))))
   \<and> (\<forall>ys_0 cs rmd e i b b'. visit ys_0 cs (map (predict m) cs) rmd e i b = Some b'
        \<longrightarrow> predict m (cs ! i) = ys_0 ! e \<longrightarrow> length (cs ! i) = 1
        \<longrightarrow> remained_indices b' = remained_indices b
            \<and> (1 \<le> b_final_length b ! e \<longrightarrow> cs ! i \<in> set (b_final_xs b' ! e)))"
proof -
  from get_rawr_finals [of m xs k] have 1: "\<exists>r. get_rawr m xs k = Some r" by blast
  have 2: "get_rawr_rounds m xs k \<le> max 1 (longest xs - 1)"
    using rawr_rounds_bound [of m k "length xs" "map (predict m) xs" "init xs"]
    by (simp add: get_rawr_rounds_def init_def)
  have 3: "2 \<le> length (s_xs st' ! t)
                \<and> (\<exists>i. in_slice (s_n_beams st) e i
                      \<and> length (s_xs st ! i) = Suc (length (s_xs st' ! t))
                      \<and> subseq (s_xs st' ! t) (s_xs st ! i))"
    if r: "round m k (length xs) (map (predict m) xs) st = Some (st', False)"
      and e: "e < length xs" and t: "in_slice (s_n_beams st') e t" for st st' e t
  proof -
    from round_survivors [OF r] e t obtain i j where ne: "length (s_xs st' ! t) \<noteq> 1"
      and i: "in_slice (s_n_beams st) e i" and j: "j \<in> set (candidates m k (s_xs st ! i))"
      and c: "child (s_xs st) (s_indices st) (s_removed_indices st) (i, j)
                = Some (s_xs st' ! t, s_indices st' ! t, s_removed_indices st' ! t)"
      by blast
    from child_length [OF c j] ne child_subseq [OF c] i show ?thesis by auto
  qed
  have 4: "remained_indices b' = remained_indices b
            \<and> (1 \<le> b_final_length b ! e \<longrightarrow> cs ! i \<in> set (b_final_xs b' ! e))"
    if "visit ys_0 cs (map (predict m) cs) rmd e i b = Some b'"
      "predict m (cs ! i) = ys_0 ! e" "length (cs ! i) = 1"
    for ys_0 cs rmd e i b b'
    using visit_record [OF that(1,2)] that(3)
    by (auto simp: record_into_def split: if_splits)
  from 1 2 3 4 show ?thesis by blast
qed

theorem search_terminates_witness:
  "get_rawr toy_model two_examples 2
     = Some ([[[4, 17, 2], [17, 9, 2]], [[2]]], [[[2], [0]], [[]]])
   \<and> get_rawr_rounds toy_model two_examples 2 = 2
   \<and> max 1 (longest two_examples - 1) = 3
   \<and> reach toy_model 2 two_examples (init two_examples)
   \<and> round toy_model 2 (length two_examples) (map (predict toy_model) two_examples)
        (init two_examples) = Some (after_round_1, False)
   \<and> in_slice (s_n_beams after_round_1) 0 1
   \<and> 2 \<le> length (s_xs after_round_1 ! 1)
   \<and> visit [0] [[2]] (map (predict toy_model) [[2]]) [[0]] 0 0 (book0 (init [[4, 2]]))
      = Some \<lparr>b_final_xs = [[[2]]], b_final_removed = [[[0]]], b_final_length = [1],
               b_new_n_beams = [], b_start = 0, remained_indices = [], cnt = 0\<rparr>
   \<and> predict toy_model ([[2]] ! 0) = [0] ! 0
   \<and> [[2 :: int]] ! 0 \<in> set ([[[2]]] ! 0)"
proof -
  have ev: "get_rawr toy_model two_examples 2
     = Some ([[[4, 17, 2], [17, 9, 2]], [[2]]], [[[2], [0]], [[]]])"
    by code_simp
  have rn: "get_rawr_rounds toy_model two_examples 2 = 2"
    by code_simp
  have lg: "max 1 (longest two_examples - 1) = 3"
    by (simp add: longest_def two_examples_def)
  have sl: "in_slice (s_n_beams after_round_1) 0 1"
    by (simp add: after_round_1_def in_slice_def)
  have vs: "visit [0] [[2]] (map (predict toy_model) [[2]]) [[0]] 0 0 (book0 (init [[4, 2]]))
      = Some \<lparr>b_final_xs = [[[2]]], b_final_removed = [[[0]]], b_final_length = [1],
               b_new_n_beams = [], b_start = 0, remained_indices = [], cnt = 0\<rparr>"
    by code_simp
  have pr: "predict toy_model ([[2]] ! 0) = [0] ! 0"
    by (simp add: toy_model_def)
  note t = search_terminates [of toy_model two_examples 2]
  have len: "0 < length two_examples" by (simp add: two_examples_def)
  from t have "\<forall>st st'. reach toy_model 2 two_examples st
        \<longrightarrow> round toy_model 2 (length two_examples) (map (predict toy_model) two_examples) st
              = Some (st', False)
        \<longrightarrow> (\<forall>e<length two_examples. \<forall>t. in_slice (s_n_beams st') e t
              \<longrightarrow> 2 \<le> length (s_xs st' ! t)
                \<and> (\<exists>i. in_slice (s_n_beams st) e i
                      \<and> length (s_xs st ! i) = Suc (length (s_xs st' ! t))
                      \<and> subseq (s_xs st' ! t) (s_xs st ! i)))"
    by blast
  from this [rule_format, OF reach_init toy_round_1 len sl]
  have "2 \<le> length (s_xs after_round_1 ! 1)" by blast
  with ev rn lg sl vs pr reach_init toy_round_1 show ?thesis by simp
qed

text \<open>
  C9. In every state at the head of the loop the flat lists have one entry per beam,
  \<open>sum n_beams = len xs = len indices = len removed_indices\<close>, the beams of example \<open>e\<close> are
  the entries of the contiguous slice that \<open>n_beams\<close> gives to \<open>e\<close> (every entry lies in the
  slice of an example, and the beams in the slice of \<open>e\<close> are reductions of the original of
  \<open>e\<close>), and the same holds for the lists that \<open>remove_one\<close> returns there. An example with
  no beam has none after \<open>remove_one\<close> and none after the round.
\<close>

theorem flat_lists_invariant:
  "\<forall>st. reach m k xs st \<longrightarrow>
     length (s_n_beams st) = length xs
   \<and> sum_list (s_n_beams st) = length (s_xs st)
   \<and> length (s_indices st) = length (s_xs st)
   \<and> length (s_removed_indices st) = length (s_xs st)
   \<and> (\<forall>i<length (s_xs st). \<exists>e<length xs. in_slice (s_n_beams st) e i)
   \<and> (\<forall>e<length xs. \<forall>i. in_slice (s_n_beams st) e i
         \<longrightarrow> i < length (s_xs st) \<and> subseq (s_xs st ! i) (xs ! e))
   \<and> (\<exists>nx nn ni nr.
         remove_one m (s_xs st) (s_n_beams st) (s_indices st) (s_removed_indices st) k
           = Some (nx, nn, ni, nr)
       \<and> length nn = length xs \<and> sum_list nn = length nx \<and> length ni = length nx
       \<and> length nr = length nx
       \<and> (\<forall>i<length nx. \<exists>e<length xs. in_slice nn e i)
       \<and> (\<forall>e<length xs. \<forall>i. in_slice nn e i \<longrightarrow> i < length nx \<and> subseq (nx ! i) (xs ! e))
       \<and> (\<forall>e<length xs. s_n_beams st ! e = 0 \<longrightarrow> nn ! e = 0))
   \<and> (\<forall>st' d. round m k (length xs) (map (predict m) xs) st = Some (st', d)
         \<longrightarrow> (\<forall>e<length xs. s_n_beams st ! e = 0 \<longrightarrow> s_n_beams st' ! e = 0))"
proof (intro allI impI)
  fix st
  assume "reach m k xs st"
  from reach_inv [OF this]
  have ok: "beams_ok xs (s_xs st) (s_n_beams st) (s_indices st) (s_removed_indices st)"
    by (simp add: inv_def post_def)
  have flat: "length nbs = length xs \<and> sum_list nbs = length cs \<and> length ind = length cs
      \<and> length rmd = length cs
      \<and> (\<forall>i<length cs. \<exists>e<length xs. in_slice nbs e i)
      \<and> (\<forall>e<length xs. \<forall>i. in_slice nbs e i \<longrightarrow> i < length cs \<and> subseq (cs ! i) (xs ! e))"
    if b: "beams_ok xs cs nbs ind rmd" for cs nbs ind rmd
  proof -
    from b have len: "length nbs = length xs" "length cs = sum_list nbs"
      "length ind = sum_list nbs" "length rmd = sum_list nbs"
      by (simp_all add: beams_ok_def)
    have "\<exists>e<length xs. in_slice nbs e i" if "i < length cs" for i
      using slice_owner [of i nbs] that len by simp
    moreover have "i < length cs \<and> subseq (cs ! i) (xs ! e)"
      if "e < length xs" "in_slice nbs e i" for e i
      using b that in_slice_less_sum [of e nbs i] len
      by (auto simp: beams_ok_def intro: beam_ok_subseq)
    ultimately show ?thesis using len by simp
  qed
  from remove_one_beams_ok [OF ok, of m k] obtain nx nn ni nr where
    ro: "remove_one m (s_xs st) (s_n_beams st) (s_indices st) (s_removed_indices st) k
           = Some (nx, nn, ni, nr)"
    and ok1: "beams_ok xs nx nn ni nr"
    by blast
  have zero: "\<forall>e<length xs. s_n_beams st ! e = 0 \<longrightarrow> nn ! e = 0"
    using remove_one_zero [OF ro] flat [OF ok] by simp
  have after: "\<forall>st' d. round m k (length xs) (map (predict m) xs) st = Some (st', d)
         \<longrightarrow> (\<forall>e<length xs. s_n_beams st ! e = 0 \<longrightarrow> s_n_beams st' ! e = 0)"
    using round_zero by blast
  from flat [OF ok] flat [OF ok1] ro zero after
  show "length (s_n_beams st) = length xs
   \<and> sum_list (s_n_beams st) = length (s_xs st)
   \<and> length (s_indices st) = length (s_xs st)
   \<and> length (s_removed_indices st) = length (s_xs st)
   \<and> (\<forall>i<length (s_xs st). \<exists>e<length xs. in_slice (s_n_beams st) e i)
   \<and> (\<forall>e<length xs. \<forall>i. in_slice (s_n_beams st) e i
         \<longrightarrow> i < length (s_xs st) \<and> subseq (s_xs st ! i) (xs ! e))
   \<and> (\<exists>nx nn ni nr.
         remove_one m (s_xs st) (s_n_beams st) (s_indices st) (s_removed_indices st) k
           = Some (nx, nn, ni, nr)
       \<and> length nn = length xs \<and> sum_list nn = length nx \<and> length ni = length nx
       \<and> length nr = length nx
       \<and> (\<forall>i<length nx. \<exists>e<length xs. in_slice nn e i)
       \<and> (\<forall>e<length xs. \<forall>i. in_slice nn e i \<longrightarrow> i < length nx \<and> subseq (nx ! i) (xs ! e))
       \<and> (\<forall>e<length xs. s_n_beams st ! e = 0 \<longrightarrow> nn ! e = 0))
   \<and> (\<forall>st' d. round m k (length xs) (map (predict m) xs) st = Some (st', d)
         \<longrightarrow> (\<forall>e<length xs. s_n_beams st ! e = 0 \<longrightarrow> s_n_beams st' ! e = 0))"
    by blast
qed

theorem flat_lists_invariant_witness:
  "reach toy_model 2 two_examples after_round_1
   \<and> sum_list (s_n_beams after_round_1) = length (s_xs after_round_1)
   \<and> length (s_indices after_round_1) = length (s_xs after_round_1)
   \<and> length (s_removed_indices after_round_1) = length (s_xs after_round_1)
   \<and> remove_one toy_model (s_xs after_round_1) (s_n_beams after_round_1)
        (s_indices after_round_1) (s_removed_indices after_round_1) 2
      = Some ([[4, 2], [9, 2]], [2, 0], [[0, 3], [2, 3]], [[2, 1], [0, 1]])
   \<and> round toy_model 2 (length two_examples) (map (predict toy_model) two_examples)
        after_round_1 = Some (after_round_2, True)
   \<and> 1 < length two_examples
   \<and> s_n_beams after_round_1 ! 1 = 0
   \<and> s_n_beams after_round_2 ! 1 = 0"
proof -
  have ro: "remove_one toy_model (s_xs after_round_1) (s_n_beams after_round_1)
        (s_indices after_round_1) (s_removed_indices after_round_1) 2
      = Some ([[4, 2], [9, 2]], [2, 0], [[0, 3], [2, 3]], [[2, 1], [0, 1]])"
    by code_simp
  have len: "1 < length two_examples" by (simp add: two_examples_def)
  have z: "s_n_beams after_round_1 ! 1 = 0" by (simp add: after_round_1_def)
  note t = flat_lists_invariant [of toy_model 2 two_examples, rule_format, OF toy_reach_1]
  from t have "sum_list (s_n_beams after_round_1) = length (s_xs after_round_1)"
    "length (s_indices after_round_1) = length (s_xs after_round_1)"
    "length (s_removed_indices after_round_1) = length (s_xs after_round_1)"
    by blast+
  moreover from t have "\<forall>st' d. round toy_model 2 (length two_examples)
        (map (predict toy_model) two_examples) after_round_1 = Some (st', d)
         \<longrightarrow> (\<forall>e<length two_examples. s_n_beams after_round_1 ! e = 0
               \<longrightarrow> s_n_beams st' ! e = 0)"
    by blast
  from this [rule_format, OF toy_round_2 len z] have "s_n_beams after_round_2 ! 1 = 0" .
  ultimately show ?thesis using toy_reach_1 ro toy_round_2 len z by blast
qed

text \<open>
  C10. The two lists of the result of \<open>get_rawr\<close> are parallel: for every example they hold
  the same number of entries, at least one, and every list of removed positions has as many
  entries as the recorded sequence is shorter than the original.
\<close>

theorem result_lists_parallel:
  "\<exists>fx fr. get_rawr m xs k = Some (fx, fr) \<and> length fx = length xs \<and> length fr = length xs
     \<and> (\<forall>e<length xs. length (fx ! e) = length (fr ! e) \<and> 1 \<le> length (fx ! e)
          \<and> (\<forall>t<length (fx ! e).
                length (fr ! e ! t) = length (xs ! e) - length (fx ! e ! t)))"
proof -
  from get_rawr_finals [of m xs k] obtain fx fr fl where
    r: "get_rawr m xs k = Some (fx, fr)" and ok: "finals_ok m xs fx fr fl" by blast
  have "length (fx ! e) = length (fr ! e) \<and> 1 \<le> length (fx ! e)
          \<and> (\<forall>t<length (fx ! e). length (fr ! e ! t) = length (xs ! e) - length (fx ! e ! t))"
    if e: "e < length xs" for e
  proof -
    have "length (fr ! e ! t) = length (xs ! e) - length (fx ! e ! t)"
      if "t < length (fx ! e)" for t
      using reduction_length [OF finals_okD(4) [OF ok e that]] by simp
    moreover from finals_okD(1) [OF ok e] have "1 \<le> length (fx ! e)"
      by (cases "fx ! e") simp_all
    ultimately show ?thesis using finals_okD(2) [OF ok e] by simp
  qed
  with r finals_ok_length [OF ok] show ?thesis by blast
qed

theorem result_lists_parallel_witness:
  "get_rawr toy_model [[4, 17, 9, 2], [5, 6, 2], [2]] 2
     = Some ([[[4, 17, 2], [17, 9, 2]], [[2]], [[2]]], [[[2], [0]], [[0, 1]], [[]]])
   \<and> length ([[[2 :: nat], [0]], [[0, 1]], [[]]] ! 1 ! 0)
       = length ([[4, 17, 9, 2], [5, 6, 2], [2 :: int]] ! 1)
         - length ([[[4, 17, 2], [17, 9, 2]], [[2]], [[2 :: int]]] ! 1 ! 0)"
proof -
  have ev: "get_rawr toy_model [[4, 17, 9, 2], [5, 6, 2], [2]] 2
     = Some ([[[4, 17, 2], [17, 9, 2]], [[2]], [[2]]], [[[2], [0]], [[0, 1]], [[]]])"
    by code_simp
  show ?thesis
    using result_lists_parallel [of toy_model "[[4, 17, 9, 2], [5, 6, 2], [2]]" 2] ev by simp
qed
end
